theory Spec2Isabelle
  imports Main
begin

section \<open>JavaScript strings and the platform's Unicode operations\<close>

text \<open>
  A JavaScript string is a sequence of UTF-16 code units; a code unit is modelled by its
  numeric value. \<open>u ''abc''\<close> is the string of the ASCII literal \<open>abc\<close>.
\<close>

type_synonym ustring = "nat list"

abbreviation (input) u :: "string \<Rightarrow> ustring" where
  "u s \<equiv> map of_char s"

definition isAscii :: "ustring \<Rightarrow> bool" where
  "isAscii s = list_all (\<lambda>c. c < 128) s"

definition asciiLower :: "nat \<Rightarrow> nat" where
  "asciiLower c = (if 65 \<le> c \<and> c \<le> 90 then c + 32 else c)"

definition asciiUpper :: "nat \<Rightarrow> nat" where
  "asciiUpper c = (if 97 \<le> c \<and> c \<le> 122 then c - 32 else c)"

text \<open>
  \<open>toLowerCase\<close>, \<open>toUpperCase\<close>, \<open>normalize('NFD')\<close>, the property
  \<open>\p{Diacritic}\<close> and the case folding of a case-insensitive \<open>RegExp\<close> are driven by
  the Unicode tables of the JavaScript engine, which are not part of the repository. On a
  string of ASCII code units their result is fixed by the standard and is written out here:
  case mapping touches the 26 letters, NFD changes nothing, and the ASCII characters with
  the property Diacritic are \<open>^\<close> (94) and \<open>`\<close> (96). On any other string the result is
  taken from a parameter, the record \<open>platform\<close>.
\<close>

record platform =
  lowerExt :: "ustring \<Rightarrow> ustring"
  upperExt :: "ustring \<Rightarrow> ustring"
  nfdExt :: "ustring \<Rightarrow> ustring"
  stripDiacriticsExt :: "ustring \<Rightarrow> ustring"
  upperUnitExt :: "nat \<Rightarrow> nat"

definition toLowerCase :: "platform \<Rightarrow> ustring \<Rightarrow> ustring" where
  "toLowerCase P s = (if isAscii s then map asciiLower s else lowerExt P s)"

definition toUpperCase :: "platform \<Rightarrow> ustring \<Rightarrow> ustring" where
  "toUpperCase P s = (if isAscii s then map asciiUpper s else upperExt P s)"

definition normalizeNFD :: "platform \<Rightarrow> ustring \<Rightarrow> ustring" where
  "normalizeNFD P s = (if isAscii s then s else nfdExt P s)"

text \<open>\<open>.replace(/\p{Diacritic}/gu, '')\<close>\<close>

definition stripDiacritics :: "platform \<Rightarrow> ustring \<Rightarrow> ustring" where
  "stripDiacritics P s =
     (if isAscii s then filter (\<lambda>c. c \<noteq> 94 \<and> c \<noteq> 96) s else stripDiacriticsExt P s)"

text \<open>
  The class \<open>\s\<close> of a \<open>RegExp\<close>, which is also what \<open>trim\<close> removes: the code units
  of WhiteSpace and LineTerminator.
\<close>

definition isWhiteSpace :: "nat \<Rightarrow> bool" where
  "isWhiteSpace c =
     ((9 \<le> c \<and> c \<le> 13) \<or> c = 32 \<or> c = 160 \<or> c = 5760 \<or> (8192 \<le> c \<and> c \<le> 8202)
      \<or> c = 8232 \<or> c = 8233 \<or> c = 8239 \<or> c = 8287 \<or> c = 12288 \<or> c = 65279)"

definition isLowerAlnum :: "nat \<Rightarrow> bool" where
  "isLowerAlnum c = ((97 \<le> c \<and> c \<le> 122) \<or> (48 \<le> c \<and> c \<le> 57))"

definition isHyphen :: "nat \<Rightarrow> bool" where
  "isHyphen c = (c = 45)"

text \<open>
  \<open>.replace(/X+/g, r)\<close> for a character class \<open>X\<close>: every maximal run of code units in
  the class is replaced by the single code unit \<open>r\<close>.
\<close>

function collapseRuns :: "(nat \<Rightarrow> bool) \<Rightarrow> nat \<Rightarrow> ustring \<Rightarrow> ustring" where
  "collapseRuns p r [] = []"
| "collapseRuns p r (c # cs) =
     (if p c then r # collapseRuns p r (dropWhile p cs) else c # collapseRuns p r cs)"
  by pat_completeness auto
termination
  by (relation "measure (\<lambda>(p, r, s). length s)")
     (auto simp: length_dropWhile_le less_Suc_eq_le)

definition trim :: "ustring \<Rightarrow> ustring" where
  "trim s = rev (dropWhile isWhiteSpace (rev (dropWhile isWhiteSpace s)))"

text \<open>\<open>.replace(/[-_]/g, ' ')\<close>\<close>

definition dashesToSpaces :: "ustring \<Rightarrow> ustring" where
  "dashesToSpaces s = map (\<lambda>c. if c = 45 \<or> c = 95 then 32 else c) s"

text \<open>\<open>.replace(/[^a-z0-9\s-]/g, '')\<close>\<close>

definition dropNonKebab :: "ustring \<Rightarrow> ustring" where
  "dropNonKebab s = filter (\<lambda>c. isLowerAlnum c \<or> isWhiteSpace c \<or> c = 45) s"

text \<open>
  \<open>.replace(/^-|-$/g, '')\<close>: the scan removes a hyphen at index 0, then goes on behind it
  and removes a hyphen that ends the string.
\<close>

definition stripEdgeHyphens :: "ustring \<Rightarrow> ustring" where
  "stripEdgeHyphens s =
     (let s1 = (case s of [] \<Rightarrow> [] | c # cs \<Rightarrow> if c = 45 then cs else s)
      in if s1 \<noteq> [] \<and> last s1 = 45 then butlast s1 else s1)"

section \<open>Name normalisation\<close>

definition sanitizeName :: "platform \<Rightarrow> ustring \<Rightarrow> ustring" where
  "sanitizeName P name =
     trim (collapseRuns isWhiteSpace 32 (dashesToSpaces
       (stripDiacritics P (normalizeNFD P (toLowerCase P name)))))"

definition canonicalKebab :: "platform \<Rightarrow> ustring \<Rightarrow> ustring" where
  "canonicalKebab P s =
     stripEdgeHyphens (collapseRuns isHyphen 45 (collapseRuns isWhiteSpace 45 (dropNonKebab
       (stripDiacritics P (normalizeNFD P (toLowerCase P s))))))"

datatype error =
    ParseError ustring
  | LastNameError ustring
  | Timeout
  | ReferenceError
  | TypeError

text \<open>\<open>s.split(' ')\<close>: always at least one part.\<close>

fun splitOn :: "nat \<Rightarrow> ustring \<Rightarrow> ustring list" where
  "splitOn sep [] = [[]]"
| "splitOn sep (c # cs) =
     (if c = sep then [] # splitOn sep cs
      else (case splitOn sep cs of [] \<Rightarrow> [[c]] | p # ps \<Rightarrow> (c # p) # ps))"

fun joinWith :: "nat \<Rightarrow> ustring list \<Rightarrow> ustring" where
  "joinWith sep [] = []"
| "joinWith sep [p] = p"
| "joinWith sep (p # ps) = p @ sep # joinWith sep ps"

record personName =
  first_n :: ustring
  last_n :: ustring

definition parsePersonName :: "platform \<Rightarrow> ustring \<Rightarrow> error + personName" where
  "parsePersonName P full =
     (let s = sanitizeName P full; parts = splitOn 32 s
      in if length parts < 2 then Inl (ParseError full)
         else Inr \<lparr>first_n = hd parts, last_n = joinWith 32 (tl parts)\<rparr>)"

section \<open>Folder path\<close>

text \<open>
  \<open>a <= b\<close> on JavaScript strings: lexicographic on code units.
\<close>

fun strLe :: "ustring \<Rightarrow> ustring \<Rightarrow> bool" where
  "strLe [] t = True"
| "strLe (c # cs) [] = False"
| "strLe (c # cs) (d # ds) = (c < d \<or> (c = d \<and> strLe cs ds))"

record folders =
  letterFolder :: ustring
  rangeFolder :: ustring

definition computeLetterAndRange :: "platform \<Rightarrow> ustring \<Rightarrow> error + folders" where
  "computeLetterAndRange P lastN =
     (let clean = filter (\<lambda>c. c \<noteq> 45) (canonicalKebab P lastN);
          firstLetter = toUpperCase P (take 1 clean)
      in if firstLetter = [] \<or> \<not> list_ex (\<lambda>c. 65 \<le> c \<and> c \<le> 90) firstLetter
         then Inl (LastNameError lastN)
         else
           (let secondLetter =
                  toLowerCase P (case drop 1 clean of [] \<Rightarrow> u ''a'' | c # _ \<Rightarrow> [c]);
                (bucketStart, bucketEnd) =
                  (if strLe (u ''a'') secondLetter \<and> strLe secondLetter (u ''i'')
                   then (u ''a'', u ''i'')
                   else if strLe (u ''j'') secondLetter \<and> strLe secondLetter (u ''r'')
                   then (u ''j'', u ''r'')
                   else (u ''s'', u ''z''))
            in Inr \<lparr>letterFolder = firstLetter,
                    rangeFolder = firstLetter @ bucketStart @ u ''-'' @ firstLetter @ bucketEnd\<rparr>))"

section \<open>The tier patterns\<close>

text \<open>
  Every pattern the script builds has the shape \<open>^ item ... item $\<close> with the flag
  \<open>i\<close> and without the flags \<open>u\<close> and \<open>m\<close>; an item is a character set with a quantifier.
  The pattern text is assembled from the output of \<open>canonicalKebab\<close>, whose code units
  are lower-case letters, digits and hyphens (lemma \<open>canonicalKebab_chars\<close>): each stands
  for itself in a pattern. \<open>\d{4}\<close> is four items \<open>\d\<close>.
\<close>

datatype cset = Single nat | AlnumHyphen | Digit

datatype quant = One | Star | Plus

type_synonym regex = "(cset \<times> quant) list"

text \<open>
  Canonicalize of a pattern without the flag \<open>u\<close>: the code unit is upper-cased, and
  a code unit from 128 on whose upper case would be ASCII is left as it is.
\<close>

definition canonicalize :: "platform \<Rightarrow> nat \<Rightarrow> nat" where
  "canonicalize P ch =
     (if ch < 128 then asciiUpper ch
      else (let cu = upperUnitExt P ch in if cu < 128 then ch else cu))"

fun members :: "cset \<Rightarrow> nat list" where
  "members (Single c) = [c]"
| "members AlnumHyphen = [97..<123] @ [48..<58] @ [45]"
| "members Digit = [48..<58]"

definition csetMatch :: "platform \<Rightarrow> cset \<Rightarrow> nat \<Rightarrow> bool" where
  "csetMatch P cs ch = (canonicalize P ch \<in> set (map (canonicalize P) (members cs)))"

function rmatch :: "platform \<Rightarrow> regex \<Rightarrow> ustring \<Rightarrow> bool" where
  "rmatch P [] s = (s = [])"
| "rmatch P ((cs, One) # r) [] = False"
| "rmatch P ((cs, One) # r) (x # xs) = (csetMatch P cs x \<and> rmatch P r xs)"
| "rmatch P ((cs, Star) # r) [] = rmatch P r []"
| "rmatch P ((cs, Star) # r) (x # xs) =
     (rmatch P r (x # xs) \<or> (csetMatch P cs x \<and> rmatch P ((cs, Star) # r) xs))"
| "rmatch P ((cs, Plus) # r) [] = False"
| "rmatch P ((cs, Plus) # r) (x # xs) = (csetMatch P cs x \<and> rmatch P ((cs, Star) # r) xs)"
  by pat_completeness auto
termination
  by (relation "measure (\<lambda>(P, r, s). length r + length s)") auto

text \<open>\<open>regex.test(txt)\<close>\<close>

definition regexTest :: "platform \<Rightarrow> regex \<Rightarrow> ustring \<Rightarrow> bool" where
  "regexTest P re txt = rmatch P re txt"

definition lits :: "ustring \<Rightarrow> regex" where
  "lits s = map (\<lambda>c. (Single c, One)) s"

definition digits4 :: regex where
  "digits4 = replicate 4 (Digit, One)"

definition buildExactRegex :: "platform \<Rightarrow> ustring \<Rightarrow> ustring \<Rightarrow> regex" where
  "buildExactRegex P lastN firstN =
     (let lastK = canonicalKebab P lastN; firstK = canonicalKebab P firstN
      in lits lastK @ lits (u ''-'') @ lits firstK @ lits (u ''-'') @ digits4)"

definition buildLastPlusFirstInitialRegex :: "platform \<Rightarrow> ustring \<Rightarrow> ustring \<Rightarrow> regex" where
  "buildLastPlusFirstInitialRegex P lastN firstN =
     (let lastK = canonicalKebab P lastN; firstInitial = take 1 (canonicalKebab P firstN)
      in lits lastK @ lits (u ''-'') @ lits firstInitial @ [(AlnumHyphen, Star)]
         @ lits (u ''-'') @ digits4)"

definition buildLastOnlyRegex :: "platform \<Rightarrow> ustring \<Rightarrow> regex" where
  "buildLastOnlyRegex P lastN =
     (let lastK = canonicalKebab P lastN
      in lits lastK @ lits (u ''-'') @ [(AlnumHyphen, Plus)] @ lits (u ''-'') @ digits4)"

definition buildFirstLetterRegex :: "platform \<Rightarrow> ustring \<Rightarrow> regex" where
  "buildFirstLetterRegex P lastN =
     (let letter = toLowerCase P (take 1 (canonicalKebab P lastN))
      in lits letter @ [(AlnumHyphen, Star)] @ lits (u ''-'') @ digits4)"

section \<open>The browser\<close>

text \<open>
  The script runs in a browser console against a live tree. What the page shows and how it
  reacts is not part of the repository: it is a parameter, the record \<open>browser\<close>, over a
  type \<open>'w\<close> of states of the page (document, clock, \<open>window.userReady\<close>). Only an
  awaited timer lets the page change under the script; clicks change it at once.
\<close>

datatype elem = Document | Node nat

text \<open>JavaScript values, as far as the script tells them apart.\<close>

datatype jsval = JUndefined | JNull | JString ustring | JNumber int | JObject

fun truthy :: "jsval \<Rightarrow> bool" where
  "truthy JUndefined = False"
| "truthy JNull = False"
| "truthy (JString s) = (s \<noteq> [])"
| "truthy (JNumber n) = (n \<noteq> 0)"
| "truthy JObject = True"

record 'w browser =
  treeNodes :: "'w \<Rightarrow> elem \<Rightarrow> elem list"
    \<comment> \<open>\<open>root.querySelectorAll('.scContentTreeNode')\<close>, in document order\<close>
  spanText :: "'w \<Rightarrow> elem \<Rightarrow> ustring option"
    \<comment> \<open>\<open>node.querySelector('span')\<close>: no span, or the \<open>textContent\<close> of the first one\<close>
  hasArrow :: "'w \<Rightarrow> elem \<Rightarrow> bool"
    \<comment> \<open>\<open>node.querySelector('img')\<close> is not null\<close>
  isExpanded :: "'w \<Rightarrow> elem \<Rightarrow> bool"
    \<comment> \<open>\<open>node.lastElementChild\<close> is a \<open>DIV\<close>\<close>
  clickArrow :: "elem \<Rightarrow> 'w \<Rightarrow> 'w"
  clickSpan :: "elem \<Rightarrow> 'w \<Rightarrow> 'w"
  now :: "'w \<Rightarrow> int"
    \<comment> \<open>\<open>Date.now()\<close>\<close>
  sleep :: "nat \<Rightarrow> 'w \<Rightarrow> 'w"
    \<comment> \<open>the page when a timer of so many milliseconds has fired\<close>
  userReady :: "'w \<Rightarrow> bool"
  setUserReady :: "bool \<Rightarrow> 'w \<Rightarrow> 'w"
  headshotSpan :: "'w \<Rightarrow> elem \<Rightarrow> elem option"
    \<comment> \<open>the first span under the root whose text includes \<open>Headshot Image\<close>\<close>
  siblingInputValue :: "'w \<Rightarrow> elem \<Rightarrow> ustring option"
    \<comment> \<open>\<open>span.parentElement?.nextElementSibling?.querySelector('input')?.getAttribute('value')\<close>\<close>
  pageGlobal :: "'w \<Rightarrow> string \<Rightarrow> jsval option"
    \<comment> \<open>the properties of the global object that the page supplies: its global variables
       and its elements with an \<open>id\<close>\<close>

section \<open>Tree search\<close>

definition findNodeExact :: "'w browser \<Rightarrow> platform \<Rightarrow> 'w \<Rightarrow> ustring \<Rightarrow> elem \<Rightarrow> elem option" where
  "findNodeExact B P w name searchRoot =
     find (\<lambda>node. case spanText B w node of
                     None \<Rightarrow> False
                   | Some txt \<Rightarrow> sanitizeName P txt = sanitizeName P name)
       (treeNodes B w searchRoot)"

text \<open>
  The polling loop of \<open>waitForMatchExact\<close>: \<open>check\<close> resolves with a match, rejects when
  the timeout has passed, and otherwise runs again after 500 ms. Nothing in the script bounds
  the number of rounds, so the loop is a partial function: \<open>None\<close> stands for a promise that
  never settles.
\<close>

partial_function (option) checkExact ::
  "'w browser \<Rightarrow> platform \<Rightarrow> ustring \<Rightarrow> elem \<Rightarrow> int \<Rightarrow> int \<Rightarrow> 'w \<Rightarrow> ((error + elem) \<times> 'w) option" where
  "checkExact B P name searchRoot timeout start w =
     (case findNodeExact B P w name searchRoot of
        Some m \<Rightarrow> Some (Inr m, w)
      | None \<Rightarrow>
          if now B w - start > timeout then Some (Inl Timeout, w)
          else checkExact B P name searchRoot timeout start (sleep B 500 w))"

definition waitForMatchExact ::
  "'w browser \<Rightarrow> platform \<Rightarrow> ustring \<Rightarrow> elem \<Rightarrow> int \<Rightarrow> 'w \<Rightarrow> ((error + elem) \<times> 'w) option" where
  "waitForMatchExact B P name searchRoot timeout w =
     checkExact B P name searchRoot timeout (now B w) w"

definition expand ::
  "'w browser \<Rightarrow> platform \<Rightarrow> ustring \<Rightarrow> elem \<Rightarrow> 'w \<Rightarrow> ((error + elem) \<times> 'w) option" where
  "expand B P name searchRoot w =
     (case waitForMatchExact B P name searchRoot 5000 w of
        None \<Rightarrow> None
      | Some (Inl e, w') \<Rightarrow> Some (Inl e, w')
      | Some (Inr node, w') \<Rightarrow>
          if \<not> hasArrow B w' node then Some (Inr node, w')
          else if isExpanded B w' node then Some (Inr node, w')
          else Some (Inr node, sleep B 250 (clickArrow B node w')))"

definition findNodesByRegex :: "'w browser \<Rightarrow> platform \<Rightarrow> 'w \<Rightarrow> regex \<Rightarrow> elem \<Rightarrow> elem list" where
  "findNodesByRegex B P w re searchRoot =
     filter (\<lambda>node. case spanText B w node of
                       None \<Rightarrow> False
                     | Some txt \<Rightarrow> regexTest P re (trim txt))
       (treeNodes B w searchRoot)"

partial_function (option) checkRegex ::
  "'w browser \<Rightarrow> platform \<Rightarrow> regex \<Rightarrow> elem \<Rightarrow> int \<Rightarrow> int \<Rightarrow> 'w \<Rightarrow> ((error + elem list) \<times> 'w) option" where
  "checkRegex B P re searchRoot timeout start w =
     (let matches = findNodesByRegex B P w re searchRoot
      in if matches \<noteq> [] then Some (Inr matches, w)
         else if now B w - start > timeout then Some (Inl Timeout, w)
         else checkRegex B P re searchRoot timeout start (sleep B 500 w))"

declare checkExact.simps [code] checkRegex.simps [code]

definition waitForRegex ::
  "'w browser \<Rightarrow> platform \<Rightarrow> regex \<Rightarrow> elem \<Rightarrow> int \<Rightarrow> 'w \<Rightarrow> ((error + elem list) \<times> 'w) option" where
  "waitForRegex B P re searchRoot timeout w = checkRegex B P re searchRoot timeout (now B w) w"

text \<open>
  The polling loops end when the clock moves on: a timer with a positive delay fires at a
  later reading of \<open>Date.now()\<close>.
\<close>

definition clockAdvances :: "'w browser \<Rightarrow> bool" where
  "clockAdvances B = (\<forall>w d. 0 < d \<longrightarrow> now B w < now B (sleep B d w))"

text \<open>
  \<open>countdown(0)\<close>: clears \<open>window.userReady\<close> and waits for it in rounds of five seconds,
  twelve rounds at most.
\<close>

fun countdownWaits :: "'w browser \<Rightarrow> nat \<Rightarrow> 'w \<Rightarrow> 'w" where
  "countdownWaits B 0 w = w"
| "countdownWaits B (Suc n) w =
     (if userReady B w then w else countdownWaits B n (sleep B 5000 w))"

definition countdown0 :: "'w browser \<Rightarrow> 'w \<Rightarrow> 'w" where
  "countdown0 B w = countdownWaits B 12 (setUserReady B False w)"

definition clickFirstRegex ::
  "'w browser \<Rightarrow> platform \<Rightarrow> regex \<Rightarrow> elem \<Rightarrow> int \<Rightarrow> 'w \<Rightarrow> ((error + bool) \<times> 'w) option" where
  "clickFirstRegex B P re searchRoot timeout w =
     (case waitForRegex B P re searchRoot timeout w of
        None \<Rightarrow> None
      | Some (Inl e, w') \<Rightarrow> Some (Inl e, w')
      | Some (Inr matches, w') \<Rightarrow>
          (case matches of
             [] \<Rightarrow> Some (Inl TypeError, w')
           | node # _ \<Rightarrow>
               (case spanText B w' node of
                  Some _ \<Rightarrow> Some (Inr True, countdown0 B (clickSpan B node w'))
                | None \<Rightarrow> Some (Inr False, w'))))"

text \<open>
  \<open>getHeadshotImageString\<close> declares \<open>const val\<close> inside the block of its \<open>if\<close> and reads
  \<open>val\<close> in the \<open>return\<close> statement behind the block. There the bindings of the block
  are gone: the identifier is looked up in the scope of the function, then in the scope of
  the script, then on the global object. An identifier that none of them binds raises a
  ReferenceError.
\<close>

text \<open>What the script itself declares, with the two globals it creates by assignment.\<close>

definition scriptScope :: "(string \<times> jsval) list" where
  "scriptScope =
     (''myDebug'', JNumber 3) #
     map (\<lambda>n. (n, JObject))
       [''myDebugLevels'', ''providedNames'', ''peopleCardData'', ''sanitizeName'',
        ''canonicalKebab'', ''parsePersonName'', ''countdown'', ''BASE_PATH'',
        ''computeLetterAndRange'', ''buildExactRegex'', ''buildLastPlusFirstInitialRegex'',
        ''buildLastOnlyRegex'', ''buildFirstLetterRegex'', ''findNodeExact'',
        ''waitForMatchExact'', ''expand'', ''findNodesByRegex'', ''waitForRegex'',
        ''clickFirstRegex'', ''getHeadshotImageString'']"

definition getHeadshotImageString :: "'w browser \<Rightarrow> 'w \<Rightarrow> elem \<Rightarrow> error + jsval" where
  "getHeadshotImageString B w searchRoot =
     (let targetSpan = headshotSpan B w searchRoot;
          functionScope =
            [(''searchRoot'', JObject),
             (''targetSpan'', case targetSpan of Some _ \<Rightarrow> JObject | None \<Rightarrow> JUndefined)];
          blockScope =
            (case targetSpan of
               Some sp \<Rightarrow>
                 [(''parent'', JObject), (''sibling'', JObject), (''input'', JObject),
                  (''val'', case siblingInputValue B w sp of
                              Some v \<Rightarrow> JString v | None \<Rightarrow> JUndefined)]
             | None \<Rightarrow> [])
      in case map_of (functionScope @ scriptScope) ''val'' of
           Some v \<Rightarrow> Inr (if truthy v then v else JNull)
         | None \<Rightarrow>
             (case pageGlobal B w ''val'' of
                Some v \<Rightarrow> Inr (if truthy v then v else JNull)
              | None \<Rightarrow> Inl ReferenceError))"

section \<open>The loop over the queries\<close>

record person =
  name :: ustring
  found :: bool
  headshotImgString :: jsval

definition BASE_PATH :: "ustring list" where
  "BASE_PATH =
     [u ''Redesign Data'', u ''Modules Global Data'', u ''People Cards'', u ''People Card Data'']"

text \<open>Step 2 of the loop body: expand the folders of the path, each inside the one before.\<close>

fun expandPath ::
  "'w browser \<Rightarrow> platform \<Rightarrow> ustring list \<Rightarrow> elem \<Rightarrow> 'w \<Rightarrow> ((error + elem) \<times> 'w) option" where
  "expandPath B P [] currentSearchRoot w = Some (Inr currentSearchRoot, w)"
| "expandPath B P (n # ns) currentSearchRoot w =
     (case expand B P n currentSearchRoot w of
        None \<Rightarrow> None
      | Some (Inl e, w') \<Rightarrow> Some (Inl e, w')
      | Some (Inr expandedNode, w') \<Rightarrow> expandPath B P ns expandedNode w')"

text \<open>
  One fallback tier: \<open>try { if (await clickFirstRegex(re, root, 2000)) continue; } catch (e) {}\<close>.
  The result is \<open>True\<close> when the loop body ends here.
\<close>

definition fallbackTier ::
  "'w browser \<Rightarrow> platform \<Rightarrow> regex \<Rightarrow> elem \<Rightarrow> 'w \<Rightarrow> (bool \<times> 'w) option" where
  "fallbackTier B P re searchRoot w =
     (case clickFirstRegex B P re searchRoot 2000 w of
        None \<Rightarrow> None
      | Some (Inr True, w') \<Rightarrow> Some (True, w')
      | Some (Inr False, w') \<Rightarrow> Some (False, w')
      | Some (Inl e, w') \<Rightarrow> Some (False, w'))"

definition fallbacks ::
  "'w browser \<Rightarrow> platform \<Rightarrow> personName \<Rightarrow> elem \<Rightarrow> 'w \<Rightarrow> 'w option" where
  "fallbacks B P pn searchRoot w =
     (case fallbackTier B P (buildLastPlusFirstInitialRegex P (last_n pn) (first_n pn)) searchRoot w of
        None \<Rightarrow> None
      | Some (True, w2) \<Rightarrow> Some w2
      | Some (False, w2) \<Rightarrow>
          (case fallbackTier B P (buildLastOnlyRegex P (last_n pn)) searchRoot w2 of
             None \<Rightarrow> None
           | Some (True, w3) \<Rightarrow> Some w3
           | Some (False, w3) \<Rightarrow>
               (case fallbackTier B P (buildFirstLetterRegex P (last_n pn)) searchRoot w3 of
                  None \<Rightarrow> None
                | Some (_, w4) \<Rightarrow> Some w4)))"

text \<open>
  The \<open>try\<close> block of the loop body. The result carries the exception that leaves the
  block, if any, and the entry as the block has left it: the entry is an object that the
  block updates in place. The call of \<open>getHeadshotImageString\<close> stands inside the inner
  \<open>try\<close> of the exact tier, so what it throws is caught there and the fallbacks run.
\<close>

definition tryBody ::
  "'w browser \<Rightarrow> platform \<Rightarrow> person \<Rightarrow> 'w \<Rightarrow> ((error + unit) \<times> person \<times> 'w) option" where
  "tryBody B P p w =
     (case parsePersonName P (name p) of
        Inl e \<Rightarrow> Some (Inl e, p, w)
      | Inr pn \<Rightarrow>
     (case computeLetterAndRange P (last_n pn) of
        Inl e \<Rightarrow> Some (Inl e, p, w)
      | Inr f \<Rightarrow>
     (case expandPath B P (BASE_PATH @ [letterFolder f, rangeFolder f]) Document w of
        None \<Rightarrow> None
      | Some (Inl e, w1) \<Rightarrow> Some (Inl e, p, w1)
      | Some (Inr currentSearchRoot, w1) \<Rightarrow>
     (case clickFirstRegex B P (buildExactRegex P (last_n pn) (first_n pn))
             currentSearchRoot 3000 w1 of
        None \<Rightarrow> None
      | Some (Inr True, w2) \<Rightarrow>
          (case getHeadshotImageString B w2 currentSearchRoot of
             Inr v \<Rightarrow> Some (Inr (), p\<lparr>found := True, headshotImgString := v\<rparr>, w2)
           | Inl e \<Rightarrow>
               (case fallbacks B P pn currentSearchRoot w2 of
                  None \<Rightarrow> None
                | Some w3 \<Rightarrow> Some (Inr (), p\<lparr>found := True\<rparr>, w3)))
      | Some (_, w2) \<Rightarrow>
          (case fallbacks B P pn currentSearchRoot w2 of
             None \<Rightarrow> None
           | Some w3 \<Rightarrow> Some (Inr (), p, w3))))))"

text \<open>The loop body: the outer \<open>catch\<close> logs the exception and the loop goes on.\<close>

definition processPerson ::
  "'w browser \<Rightarrow> platform \<Rightarrow> person \<Rightarrow> 'w \<Rightarrow> (person \<times> 'w) option" where
  "processPerson B P p w =
     (case tryBody B P p w of
        None \<Rightarrow> None
      | Some (_, p', w') \<Rightarrow> Some (p', w'))"

fun processAll ::
  "'w browser \<Rightarrow> platform \<Rightarrow> person list \<Rightarrow> 'w \<Rightarrow> (person list \<times> 'w) option" where
  "processAll B P [] w = Some ([], w)"
| "processAll B P (p # ps) w =
     (case processPerson B P p w of
        None \<Rightarrow> None
      | Some (p', w') \<Rightarrow>
          (case processAll B P ps w' of
             None \<Rightarrow> None
           | Some (ps', w'') \<Rightarrow> Some (p' # ps', w'')))"

text \<open>
  The script as a whole. Without names it logs an error and returns nothing; otherwise it
  returns \<open>peopleCardData\<close>, one entry for each name.
\<close>

definition peopleCardData :: "ustring list \<Rightarrow> person list" where
  "peopleCardData providedNames =
     map (\<lambda>n. \<lparr>name = n, found = False, headshotImgString = JNull\<rparr>) providedNames"

definition peopleCardFinder ::
  "'w browser \<Rightarrow> platform \<Rightarrow> ustring list \<Rightarrow> 'w \<Rightarrow> (person list option \<times> 'w) option" where
  "peopleCardFinder B P providedNames w =
     (if providedNames = [] then Some (None, w)
      else (case processAll B P (peopleCardData providedNames) w of
              None \<Rightarrow> None
            | Some (ps, w') \<Rightarrow> Some (Some ps, w')))"

section \<open>Auxiliary notions for the proofs\<close>

text \<open>The platform whose extensions leave every non-ASCII string as it is.\<close>

definition asciiPlatform :: platform where
  "asciiPlatform =
     \<lparr>lowerExt = (\<lambda>s. s), upperExt = (\<lambda>s. s), nfdExt = (\<lambda>s. s),
      stripDiacriticsExt = (\<lambda>s. s), upperUnitExt = (\<lambda>c. c)\<rparr>"

text \<open>No two neighbours of the string are both in the class \<open>p\<close>.\<close>

fun noRun :: "(nat \<Rightarrow> bool) \<Rightarrow> ustring \<Rightarrow> bool" where
  "noRun p [] = True"
| "noRun p [c] = True"
| "noRun p (c # d # r) = (\<not> (p c \<and> p d) \<and> noRun p (d # r))"

text \<open>
  The shape of a kebab string: lower-case letters, digits and single hyphens, no hyphen at
  either end.
\<close>

definition kebabForm :: "ustring \<Rightarrow> bool" where
  "kebabForm k = ((\<forall>c\<in>set k. isLowerAlnum c \<or> c = 45) \<and> noRun isHyphen k
     \<and> (k \<noteq> [] \<longrightarrow> hd k \<noteq> 45 \<and> List.last k \<noteq> 45))"

text \<open>The three buckets, as a function of the second letter alone.\<close>

definition bucketOf :: "nat \<Rightarrow> nat \<times> nat" where
  "bucketOf d =
     (if 97 \<le> d \<and> d \<le> 105 then (97, 105)
      else if 106 \<le> d \<and> d \<le> 114 then (106, 114) else (115, 122))"

text \<open>The code units a kebab string is made of.\<close>

definition kebabChar :: "nat \<Rightarrow> bool" where
  "kebabChar c = (isLowerAlnum c \<or> c = 45)"

text \<open>
  A platform that agrees with the Unicode tables on the strings over ASCII and the three
  Tibetan code points U+0F40 (letter KA, a starter), U+0F71 (vowel sign AA, combining class
  129) and U+0F72 (vowel sign I, combining class 130): none of the three has a case mapping,
  a decomposition or the property Diacritic, so lower-casing and diacritic stripping act on
  the ASCII part only, and NFD is the canonical ordering of the combining marks.
\<close>

definition ccc :: "nat \<Rightarrow> nat" where
  "ccc c = (if c = 3953 then 129 else if c = 3954 then 130 else 0)"

fun placeMark :: "nat \<Rightarrow> ustring \<Rightarrow> ustring" where
  "placeMark c [] = [c]"
| "placeMark c (d # ds) = (if ccc c > ccc d \<and> ccc d > 0 then d # placeMark c ds else c # d # ds)"

fun canonicalOrder :: "ustring \<Rightarrow> ustring" where
  "canonicalOrder [] = []"
| "canonicalOrder (c # cs) = placeMark c (canonicalOrder cs)"

definition tibetanPlatform :: platform where
  "tibetanPlatform =
     \<lparr>lowerExt = map asciiLower, upperExt = map asciiUpper, nfdExt = canonicalOrder,
      stripDiacriticsExt = filter (\<lambda>c. c \<noteq> 94 \<and> c \<noteq> 96), upperUnitExt = (\<lambda>c. c)\<rparr>"

text \<open>The last three steps of \<open>sanitizeName\<close>, which work on single code units.\<close>

definition post :: "ustring \<Rightarrow> ustring" where
  "post x = trim (collapseRuns isWhiteSpace 32 (dashesToSpaces x))"

text \<open>ASCII code units that lower-casing and diacritic stripping leave alone.\<close>

definition plainAscii :: "nat \<Rightarrow> bool" where
  "plainAscii c = (c < 128 \<and> \<not> (65 \<le> c \<and> c \<le> 90) \<and> c \<noteq> 94 \<and> c \<noteq> 96)"

text \<open>
  A small page to run the script on: the four base folders, the letter folder S with an
  empty range folder Sa-Si and a range folder Sj-Sr that holds one card. Every folder is
  already expanded; a timer fires exactly on time, and the user is ready when it does.
\<close>

record demoWorld =
  clock :: int
  ready :: bool
  clicked :: "elem list"

definition demoText :: "nat \<Rightarrow> ustring option" where
  "demoText k = map_of
     [(1, u ''Redesign Data''), (2, u ''Modules Global Data''), (3, u ''People Cards''),
      (4, u ''People Card Data''), (5, u ''S''), (6, u ''Sa-Si''), (7, u ''Sj-Sr''),
      (8, u '' smith-jane-1234 '')] k"

definition demoTree :: "elem \<Rightarrow> nat list" where
  "demoTree r =
     (case r of
        Document \<Rightarrow> [1, 2, 3, 4, 5, 6, 7, 8]
      | Node k \<Rightarrow> (case map_of [(1, [2, 3, 4, 5, 6, 7, 8]), (2, [3, 4, 5, 6, 7, 8]),
                                 (3, [4, 5, 6, 7, 8]), (4, [5, 6, 7, 8]), (5, [6, 7, 8]),
                                 (7, [8])] k of
                   Some ds \<Rightarrow> ds | None \<Rightarrow> []))"

definition demoBrowser :: "demoWorld browser" where
  "demoBrowser =
     \<lparr>treeNodes = (\<lambda>w r. map Node (demoTree r)),
      spanText = (\<lambda>w r. case r of Document \<Rightarrow> None | Node k \<Rightarrow> demoText k),
      hasArrow = (\<lambda>w r. True),
      isExpanded = (\<lambda>w r. True),
      clickArrow = (\<lambda>r w. w\<lparr>clicked := clicked w @ [r]\<rparr>),
      clickSpan = (\<lambda>r w. w\<lparr>clicked := clicked w @ [r]\<rparr>),
      now = clock,
      sleep = (\<lambda>d w. w\<lparr>clock := clock w + int d, ready := True\<rparr>),
      userReady = ready,
      setUserReady = (\<lambda>b w. w\<lparr>ready := b\<rparr>),
      headshotSpan = (\<lambda>w r. Some (Node 9)),
      siblingInputValue = (\<lambda>w r. Some (u ''smith-jane-headshot'')),
      pageGlobal = (\<lambda>w x. None)\<rparr>"


definition demoStart :: demoWorld where
  "demoStart = \<lparr>clock = 0, ready = False, clicked = []\<rparr>"

section \<open>Properties of the normalisation\<close>


lemma set_collapseRuns: "set (collapseRuns p r s) \<subseteq> {c \<in> set s. \<not> p c} \<union> {r}"
proof (induction p r s rule: collapseRuns.induct)
  case (1 p r)
  then show ?case by simp
next
  case (2 p r c cs)
  have "set (dropWhile p cs) \<subseteq> set cs" by (simp add: set_dropWhileD subsetI)
  with 2 show ?case by (auto split: if_splits)
qed

lemma collapseRuns_none: "\<forall>c\<in>set s. \<not> p c \<Longrightarrow> collapseRuns p r s = s"
  by (induction s) auto

lemma collapseRuns_hd: "s = [] \<or> \<not> p (hd s) \<Longrightarrow> collapseRuns p r s = [] \<or> \<not> p (hd (collapseRuns p r s))"
  by (cases s) auto

lemma dropWhile_hd: "dropWhile p s = [] \<or> \<not> p (hd (dropWhile p s))"
  by (metis hd_dropWhile)

lemma noRun_Cons: "noRun p (c # s) = ((s = [] \<or> \<not> (p c \<and> p (hd s))) \<and> noRun p s)"
  by (cases s) auto

lemma noRun_collapseRuns: "p r \<Longrightarrow> noRun p (collapseRuns p r s)"
proof (induction p r s rule: collapseRuns.induct)
  case (1 p r)
  then show ?case by simp
next
  case (2 p r c cs)
  show ?case
  proof (cases "p c")
    case True
    have "collapseRuns p r (dropWhile p cs) = [] \<or> \<not> p (hd (collapseRuns p r (dropWhile p cs)))"
      by (rule collapseRuns_hd) (rule dropWhile_hd)
    with True 2 show ?thesis by (auto simp: noRun_Cons)
  next
    case False
    with 2 show ?thesis by (auto simp: noRun_Cons)
  qed
qed

lemma collapseRuns_fixed: "\<forall>c\<in>set s. p c \<longrightarrow> c = r \<Longrightarrow> noRun p s \<Longrightarrow> collapseRuns p r s = s"
proof (induction s)
  case Nil
  then show ?case by simp
next
  case (Cons c cs)
  show ?case
  proof (cases "p c")
    case True
    with Cons.prems have "cs = [] \<or> \<not> p (hd cs)" by (auto simp: noRun_Cons)
    then have "dropWhile p cs = cs" by (cases cs) auto
    with True Cons show ?thesis by (auto simp: noRun_Cons)
  next
    case False
    with Cons show ?thesis by (auto simp: noRun_Cons)
  qed
qed

lemma noRun_tl: "noRun p s \<Longrightarrow> noRun p (tl s)"
  by (cases s) (auto simp: noRun_Cons)

lemma noRun_butlast: "noRun p s \<Longrightarrow> noRun p (butlast s)"
proof (induction s)
  case Nil then show ?case by simp
next
  case (Cons c cs)
  then show ?case by (cases cs; cases "tl cs") (auto simp: noRun_Cons)
qed

lemma noRun_last: "noRun p s \<Longrightarrow> s \<noteq> [] \<Longrightarrow> p (last s) \<Longrightarrow> butlast s = [] \<or> \<not> p (last (butlast s))"
proof (induction s)
  case Nil then show ?case by simp
next
  case (Cons c cs)
  show ?case
  proof (cases cs)
    case Nil then show ?thesis by simp
  next
    case (Cons d ds)
    note cs = this
    show ?thesis
    proof (cases ds)
      case Nil
      with cs Cons.prems show ?thesis by auto
    next
      case (Cons e es)
      with cs Cons.prems Cons.IH show ?thesis by (auto simp: noRun_Cons)
    qed
  qed
qed

lemma stripEdgeHyphens_form:
  assumes "\<forall>c\<in>set s. isLowerAlnum c \<or> c = 45" "noRun isHyphen s"
  shows "kebabForm (stripEdgeHyphens s)"
proof -
  define s1 where "s1 = (case s of [] \<Rightarrow> [] | c # cs \<Rightarrow> if c = 45 then cs else s)"
  have s1set: "set s1 \<subseteq> set s" by (auto simp: s1_def split: list.splits)
  have s1run: "noRun isHyphen s1" using assms(2) by (auto simp: s1_def noRun_Cons split: list.splits)
  have s1hd: "s1 = [] \<or> hd s1 \<noteq> 45" using assms(2)
    by (auto simp: s1_def noRun_Cons isHyphen_def split: list.splits)
  have res: "stripEdgeHyphens s = (if s1 \<noteq> [] \<and> last s1 = 45 then butlast s1 else s1)"
    by (simp add: stripEdgeHyphens_def s1_def)
  show ?thesis
  proof (cases "s1 \<noteq> [] \<and> last s1 = 45")
    case True
    then have r: "stripEdgeHyphens s = butlast s1" using res by simp
    have a: "set (butlast s1) \<subseteq> set s" using s1set by (meson in_set_butlastD subset_iff)
    have b: "noRun isHyphen (butlast s1)" using s1run by (rule noRun_butlast)
    have c: "butlast s1 = [] \<or> last (butlast s1) \<noteq> 45"
      using noRun_last[OF s1run] True by (auto simp: isHyphen_def)
    have d: "butlast s1 = [] \<or> hd (butlast s1) \<noteq> 45" using s1hd
      by (cases s1; cases "tl s1") (auto split: if_splits)
    show ?thesis unfolding r kebabForm_def using a b c d assms(1) by auto
  next
    case False
    then have r: "stripEdgeHyphens s = s1" using res by auto
    show ?thesis unfolding r kebabForm_def using False s1set s1run s1hd assms(1) by auto
  qed
qed

lemma canonicalKebab_form: "kebabForm (canonicalKebab P s)"
proof -
  let ?a = "dropNonKebab (stripDiacritics P (normalizeNFD P (toLowerCase P s)))"
  let ?b = "collapseRuns isWhiteSpace 45 ?a"
  let ?c = "collapseRuns isHyphen 45 ?b"
  have a: "\<forall>c\<in>set ?a. isLowerAlnum c \<or> isWhiteSpace c \<or> c = 45" by (simp add: dropNonKebab_def)
  have b: "\<forall>c\<in>set ?b. isLowerAlnum c \<or> c = 45" using set_collapseRuns[of isWhiteSpace 45 ?a] a by blast
  have c: "\<forall>c\<in>set ?c. isLowerAlnum c \<or> c = 45" using set_collapseRuns[of isHyphen 45 ?b] b by blast
  have d: "noRun isHyphen ?c" by (rule noRun_collapseRuns) (simp add: isHyphen_def)
  show ?thesis unfolding canonicalKebab_def by (rule stripEdgeHyphens_form[OF c d])
qed

lemma canonicalKebab_chars: "c \<in> set (canonicalKebab P s) \<Longrightarrow> isLowerAlnum c \<or> c = 45"
  using canonicalKebab_form[of P s] by (simp add: kebabForm_def)

lemma kebab_isAscii: "\<forall>c\<in>set k. isLowerAlnum c \<or> c = 45 \<Longrightarrow> isAscii k"
  by (auto simp: isAscii_def list_all_iff isLowerAlnum_def)

lemma kebab_lower: "\<forall>c\<in>set k. isLowerAlnum c \<or> c = 45 \<Longrightarrow> toLowerCase P k = k"
proof -
  assume a: "\<forall>c\<in>set k. isLowerAlnum c \<or> c = 45"
  have "map asciiLower k = k"
    by (rule map_idI) (use a in \<open>auto simp: asciiLower_def isLowerAlnum_def\<close>)
  then show ?thesis by (simp add: toLowerCase_def kebab_isAscii[OF a])
qed

lemma kebab_pre:
  assumes "\<forall>c\<in>set k. isLowerAlnum c \<or> c = 45"
  shows "stripDiacritics P (normalizeNFD P (toLowerCase P k)) = k"
proof -
  have "\<forall>c\<in>set k. c \<noteq> 94 \<and> c \<noteq> 96" using assms by (auto simp: isLowerAlnum_def)
  then have "filter (\<lambda>c. c \<noteq> 94 \<and> c \<noteq> 96) k = k" by (simp add: filter_id_conv)
  then show ?thesis using assms by (simp add: kebab_lower normalizeNFD_def stripDiacritics_def kebab_isAscii)
qed

lemma canonicalKebab_fixed: "kebabForm k \<Longrightarrow> canonicalKebab P k = k"
proof -
  assume k: "kebabForm k"
  then have ch: "\<forall>c\<in>set k. isLowerAlnum c \<or> c = 45" by (simp add: kebabForm_def)
  have nows: "\<forall>c\<in>set k. \<not> isWhiteSpace c" using ch by (auto simp: isLowerAlnum_def isWhiteSpace_def)
  have 1: "dropNonKebab k = k" using ch by (auto simp: dropNonKebab_def filter_id_conv)
  have 2: "collapseRuns isWhiteSpace 45 k = k" using nows by (rule collapseRuns_none)
  have 3: "collapseRuns isHyphen 45 k = k" using k by (intro collapseRuns_fixed) (auto simp: kebabForm_def isHyphen_def)
  have 4: "stripEdgeHyphens k = k" using k by (cases k) (auto simp: stripEdgeHyphens_def kebabForm_def split: if_splits)
  show ?thesis by (simp add: canonicalKebab_def kebab_pre[OF ch] 1 2 3 4)
qed

lemma canonicalKebab_idem: "canonicalKebab P (canonicalKebab P s) = canonicalKebab P s"
  by (rule canonicalKebab_fixed) (rule canonicalKebab_form)


lemma clean_chars: "c \<in> set (filter (\<lambda>c. c \<noteq> 45) (canonicalKebab P s)) \<Longrightarrow> isLowerAlnum c"
  using canonicalKebab_chars[of c P s] by auto

lemma toUpperCase_unit: "c < 128 \<Longrightarrow> toUpperCase P [c] = [asciiUpper c]"
  by (simp add: toUpperCase_def isAscii_def)

lemma toLowerCase_unit: "c < 128 \<Longrightarrow> toLowerCase P [c] = [asciiLower c]"
  by (simp add: toLowerCase_def isAscii_def)

lemma toUpperCase_Nil: "toUpperCase P [] = []"
  by (simp add: toUpperCase_def isAscii_def)

lemma compute_letter:
  assumes cl: "filter (\<lambda>c. c \<noteq> 45) (canonicalKebab P lastN) = c # rest"
    and c: "97 \<le> c \<and> c \<le> 122"
  shows "computeLetterAndRange P lastN =
     Inr \<lparr>letterFolder = [c - 32],
          rangeFolder = [c - 32, fst (bucketOf (case rest of [] \<Rightarrow> 97 | d # _ \<Rightarrow> d)), 45, c - 32,
                         snd (bucketOf (case rest of [] \<Rightarrow> 97 | d # _ \<Rightarrow> d))]\<rparr>"
proof -
  have up: "toUpperCase P [c] = [c - 32]" using c by (simp add: toUpperCase_unit asciiUpper_def)
  show ?thesis
  proof (cases rest)
    case Nil
    have lo: "toLowerCase P [97] = [97]" by (simp add: toLowerCase_unit asciiLower_def)
    show ?thesis using c
      by (auto simp add: computeLetterAndRange_def Let_def cl Nil up lo bucketOf_def)
  next
    case (Cons d ds)
    have "d \<in> set (filter (\<lambda>c. c \<noteq> 45) (canonicalKebab P lastN))" by (simp add: cl Cons)
    then have d: "isLowerAlnum d" by (rule clean_chars)
    then have "d < 128" "asciiLower d = d" by (auto simp: isLowerAlnum_def asciiLower_def)
    then have lo: "toLowerCase P [d] = [d]"
      by (simp add: toLowerCase_unit)
    show ?thesis using c
      by (auto simp add: computeLetterAndRange_def Let_def cl Cons up lo bucketOf_def)
  qed
qed

lemma compute_throws:
  assumes "\<not> (\<exists>c rest. filter (\<lambda>c. c \<noteq> 45) (canonicalKebab P lastN) = c # rest \<and> 97 \<le> c \<and> c \<le> 122)"
  shows "computeLetterAndRange P lastN = Inl (LastNameError lastN)"
proof (cases "filter (\<lambda>c. c \<noteq> 45) (canonicalKebab P lastN)")
  case Nil
  then show ?thesis by (simp add: computeLetterAndRange_def toUpperCase_Nil)
next
  case (Cons c rest)
  then have "c \<in> set (filter (\<lambda>c. c \<noteq> 45) (canonicalKebab P lastN))" by simp
  then have lc: "isLowerAlnum c" by (rule clean_chars)
  with assms Cons have d: "48 \<le> c \<and> c \<le> 57" by (auto simp: isLowerAlnum_def)
  then have up: "toUpperCase P [c] = [c]" by (simp add: toUpperCase_unit asciiUpper_def)
  show ?thesis using d by (simp add: computeLetterAndRange_def Cons up)
qed

section \<open>Properties of the pattern matcher\<close>


lemma canonicalize_ascii: "x < 128 \<Longrightarrow> canonicalize P x = asciiUpper x"
  by (simp add: canonicalize_def)

lemma canonicalize_ext: "\<not> x < 128 \<Longrightarrow> \<not> canonicalize P x < 128"
  by (simp add: canonicalize_def Let_def)

lemma canonicalize_eq_kebab:
  assumes "kebabChar c"
  shows "canonicalize P x = canonicalize P c \<longleftrightarrow> asciiLower x = c"
proof (cases "x < 128")
  case True
  with assms show ?thesis
    by (auto simp: canonicalize_def kebabChar_def isLowerAlnum_def asciiUpper_def asciiLower_def
        split: if_splits)
next
  case False
  have c: "c < 128" using assms by (auto simp: kebabChar_def isLowerAlnum_def)
  then have "canonicalize P c < 128" by (auto simp: canonicalize_def asciiUpper_def)
  moreover have "\<not> canonicalize P x < 128" using False by (rule canonicalize_ext)
  moreover have "asciiLower x = x" using False by (simp add: asciiLower_def)
  ultimately show ?thesis using False c by auto
qed

lemma csetMatch_Single: "kebabChar c \<Longrightarrow> csetMatch P (Single c) x \<longleftrightarrow> asciiLower x = c"
  by (simp add: csetMatch_def canonicalize_eq_kebab)

lemma csetMatch_members:
  "csetMatch P cs x \<longleftrightarrow> (\<exists>m\<in>set (members cs). canonicalize P x = canonicalize P m)"
  by (auto simp: csetMatch_def)

lemma members_Digit: "m \<in> set (members Digit) \<longleftrightarrow> 48 \<le> m \<and> m < 58"
  by (simp only: members.simps set_upt atLeastLessThan_iff)

lemma members_AlnumHyphen:
  "m \<in> set (members AlnumHyphen) \<longleftrightarrow> (97 \<le> m \<and> m < 123) \<or> (48 \<le> m \<and> m < 58) \<or> m = 45"
  by (simp only: members.simps set_append set_upt atLeastLessThan_iff Un_iff list.set
      insert_iff empty_iff) simp

lemma csetMatch_kebab:
  assumes "\<forall>m\<in>set (members cs). kebabChar m"
  shows "csetMatch P cs x \<longleftrightarrow> asciiLower x \<in> set (members cs)"
  unfolding csetMatch_members using assms canonicalize_eq_kebab[of _ P x] by metis

lemma csetMatch_Digit: "csetMatch P Digit x \<longleftrightarrow> 48 \<le> x \<and> x \<le> 57"
proof -
  have "\<forall>m\<in>set (members Digit). kebabChar m"
    unfolding members_Digit by (auto simp: kebabChar_def isLowerAlnum_def)
  then have "csetMatch P Digit x \<longleftrightarrow> asciiLower x \<in> set (members Digit)"
    by (rule csetMatch_kebab)
  also have "\<dots> \<longleftrightarrow> 48 \<le> x \<and> x \<le> 57"
    unfolding members_Digit by (auto simp: asciiLower_def)
  finally show ?thesis .
qed

lemma csetMatch_AlnumHyphen: "csetMatch P AlnumHyphen x \<longleftrightarrow> kebabChar (asciiLower x)"
proof -
  have "\<forall>m\<in>set (members AlnumHyphen). kebabChar m"
    unfolding members_AlnumHyphen by (auto simp: kebabChar_def isLowerAlnum_def)
  then have "csetMatch P AlnumHyphen x \<longleftrightarrow> asciiLower x \<in> set (members AlnumHyphen)"
    by (rule csetMatch_kebab)
  also have "\<dots> \<longleftrightarrow> kebabChar (asciiLower x)"
    unfolding members_AlnumHyphen by (auto simp: kebabChar_def isLowerAlnum_def)
  finally show ?thesis .
qed

lemma rmatch_lits:
  assumes "\<forall>c\<in>set k. kebabChar c"
  shows "rmatch P (lits k @ r) s \<longleftrightarrow> (\<exists>a b. s = a @ b \<and> map asciiLower a = k \<and> rmatch P r b)"
  using assms
proof (induction k arbitrary: s)
  case Nil
  then show ?case by (simp add: lits_def)
next
  case (Cons c k)
  have c: "kebabChar c" and k: "\<forall>c\<in>set k. kebabChar c" using Cons.prems by auto
  show ?case
  proof (cases s)
    case Nil
    then show ?thesis by (simp add: lits_def)
  next
    case (Cons x xs)
    have "rmatch P (lits (c # k) @ r) (x # xs) \<longleftrightarrow> asciiLower x = c \<and> rmatch P (lits k @ r) xs"
      by (simp add: lits_def csetMatch_Single[OF c])
    also have "\<dots> \<longleftrightarrow> asciiLower x = c \<and> (\<exists>a b. xs = a @ b \<and> map asciiLower a = k \<and> rmatch P r b)"
      using Cons.IH[OF k] by simp
    also have "\<dots> \<longleftrightarrow> (\<exists>a b. x # xs = a @ b \<and> map asciiLower a = c # k \<and> rmatch P r b)"
    proof
      assume "asciiLower x = c \<and> (\<exists>a b. xs = a @ b \<and> map asciiLower a = k \<and> rmatch P r b)"
      then obtain a b where "asciiLower x = c" "xs = a @ b" "map asciiLower a = k" "rmatch P r b"
        by blast
      then have "x # xs = (x # a) @ b \<and> map asciiLower (x # a) = c # k \<and> rmatch P r b" by simp
      then show "\<exists>a b. x # xs = a @ b \<and> map asciiLower a = c # k \<and> rmatch P r b"
        by (intro exI[of _ "x # a"] exI[of _ b])
    next
      assume "\<exists>a b. x # xs = a @ b \<and> map asciiLower a = c # k \<and> rmatch P r b"
      then obtain a where "\<exists>b. x # xs = a @ b \<and> map asciiLower a = c # k \<and> rmatch P r b" ..
      then obtain b where ab0: "x # xs = a @ b \<and> map asciiLower a = c # k \<and> rmatch P r b" ..
      then have ab: "x # xs = a @ b" "map asciiLower a = c # k" "rmatch P r b" by simp_all
      from ab(2) obtain y ys where a: "a = y # ys" by (cases a) auto
      have 1: "asciiLower x = c" using ab(1,2) a by simp
      have 2: "xs = ys @ b" using ab(1) a by simp
      have 3: "map asciiLower ys = k" using ab(2) a by simp
      have "\<exists>a b. xs = a @ b \<and> map asciiLower a = k \<and> rmatch P r b"
        by (rule exI[of _ ys], rule exI[of _ b]) (simp add: 2 3 ab(3))
      with 1 show "asciiLower x = c \<and> (\<exists>a b. xs = a @ b \<and> map asciiLower a = k \<and> rmatch P r b)"
        by (rule conjI)
    qed
    finally show ?thesis unfolding Cons .
  qed
qed

lemma rmatch_digits:
  "rmatch P (replicate n (Digit, One)) s \<longleftrightarrow> length s = n \<and> (\<forall>d\<in>set s. 48 \<le> d \<and> d \<le> 57)"
proof (induction n arbitrary: s)
  case 0
  then show ?case by auto
next
  case (Suc n)
  then show ?case by (cases s) (auto simp: csetMatch_Digit)
qed

lemma rmatch_digits4: "rmatch P digits4 s \<longleftrightarrow> length s = 4 \<and> (\<forall>d\<in>set s. 48 \<le> d \<and> d \<le> 57)"
  by (simp add: digits4_def rmatch_digits)

lemma rmatch_star:
  "\<forall>c\<in>set xs. csetMatch P cs c \<Longrightarrow> rmatch P r t \<Longrightarrow> rmatch P ((cs, Star) # r) (xs @ t)"
proof (induction xs)
  case Nil
  then show ?case by (cases t) auto
next
  case (Cons x xs)
  then show ?case by simp
qed

lemma rmatch_plus:
  "xs \<noteq> [] \<Longrightarrow> \<forall>c\<in>set xs. csetMatch P cs c \<Longrightarrow> rmatch P r t
     \<Longrightarrow> rmatch P ((cs, Plus) # r) (xs @ t)"
  by (cases xs) (auto simp: rmatch_star)


lemma canonicalKebab_kebabChar: "\<forall>c\<in>set (canonicalKebab P s). kebabChar c"
  using canonicalKebab_chars[of _ P s] by (auto simp: kebabChar_def)

lemma hyphen_kebabChar: "\<forall>c\<in>set [45]. kebabChar c"
  by (simp add: kebabChar_def)

lemma rmatch_litsI:
  "\<forall>c\<in>set k. kebabChar c \<Longrightarrow> map asciiLower a = k \<Longrightarrow> rmatch P r b \<Longrightarrow> rmatch P (lits k @ r) (a @ b)"
  unfolding rmatch_lits by (intro exI[of _ a] exI[of _ b]) simp

lemma rmatch_litsD:
  assumes "\<forall>c\<in>set k. kebabChar c" "rmatch P (lits k @ r) s"
  obtains a b where "s = a @ b" "map asciiLower a = k" "rmatch P r b"
proof -
  from assms(2) have "\<exists>a b. s = a @ b \<and> map asciiLower a = k \<and> rmatch P r b"
    unfolding rmatch_lits[OF assms(1)] .
  then obtain a where "\<exists>b. s = a @ b \<and> map asciiLower a = k \<and> rmatch P r b" ..
  then obtain b where "s = a @ b \<and> map asciiLower a = k \<and> rmatch P r b" ..
  then have "s = a @ b" "map asciiLower a = k" "rmatch P r b" by simp_all
  then show ?thesis by (rule that)
qed

lemma digits_lower:
  assumes "\<forall>d\<in>set (map asciiLower b). 48 \<le> d \<and> d \<le> 57"
  shows "map asciiLower b = b"
proof (rule map_idI)
  fix x assume "x \<in> set b"
  then have "48 \<le> asciiLower x \<and> asciiLower x \<le> 57" using assms by simp
  then show "asciiLower x = x" by (auto simp: asciiLower_def split: if_splits)
qed

lemma lower_digits: "\<forall>d\<in>set b. 48 \<le> d \<and> d \<le> 57 \<Longrightarrow> map asciiLower b = b"
  by (rule map_idI) (auto simp: asciiLower_def split: if_splits)

lemma exact_shape:
  "buildExactRegex P lastN firstN =
     lits (canonicalKebab P lastN) @ lits [45] @ lits (canonicalKebab P firstN) @ lits [45] @ digits4"
  by (simp add: buildExactRegex_def Let_def)

lemma exact_matchD:
  assumes "rmatch P (buildExactRegex P lastN firstN) cand"
  obtains a1 a2 a3 a4 ds where "cand = a1 @ a2 @ a3 @ a4 @ ds"
    "map asciiLower a1 = canonicalKebab P lastN" "map asciiLower a2 = [45]"
    "map asciiLower a3 = canonicalKebab P firstN" "map asciiLower a4 = [45]"
    "length ds = 4" "\<forall>d\<in>set ds. 48 \<le> d \<and> d \<le> 57"
proof -
  from assms have m: "rmatch P (lits (canonicalKebab P lastN) @ lits [45]
      @ lits (canonicalKebab P firstN) @ lits [45] @ digits4) cand"
    unfolding exact_shape .
  from rmatch_litsD[OF canonicalKebab_kebabChar m] obtain a1 b1 where
    1: "cand = a1 @ b1" "map asciiLower a1 = canonicalKebab P lastN"
    "rmatch P (lits [45] @ lits (canonicalKebab P firstN) @ lits [45] @ digits4) b1" .
  from rmatch_litsD[OF hyphen_kebabChar 1(3)] obtain a2 b2 where
    2: "b1 = a2 @ b2" "map asciiLower a2 = [45]"
    "rmatch P (lits (canonicalKebab P firstN) @ lits [45] @ digits4) b2" .
  from rmatch_litsD[OF canonicalKebab_kebabChar 2(3)] obtain a3 b3 where
    3: "b2 = a3 @ b3" "map asciiLower a3 = canonicalKebab P firstN"
    "rmatch P (lits [45] @ digits4) b3" .
  from rmatch_litsD[OF hyphen_kebabChar 3(3)] obtain a4 ds where
    4: "b3 = a4 @ ds" "map asciiLower a4 = [45]" "rmatch P digits4 ds" .
  from 4(3) have 5: "length ds = 4" "\<forall>d\<in>set ds. 48 \<le> d \<and> d \<le> 57"
    by (simp_all add: rmatch_digits4)
  have "cand = a1 @ a2 @ a3 @ a4 @ ds" by (simp add: 1(1) 2(1) 3(1) 4(1))
  then show ?thesis using 1(2) 2(2) 3(2) 4(2) 5 by (rule that)
qed


lemma lowered_AlnumHyphen:
  assumes "\<forall>c\<in>set k. kebabChar c" "map asciiLower a = k"
  shows "\<forall>c\<in>set a. csetMatch P AlnumHyphen c"
proof
  fix c assume "c \<in> set a"
  then have "asciiLower c \<in> set k" using assms(2) by auto
  then show "csetMatch P AlnumHyphen c" using assms(1) by (simp add: csetMatch_AlnumHyphen)
qed

lemma kebabChar_toLowerCase: "\<forall>c\<in>set k. kebabChar c \<Longrightarrow> toLowerCase P k = k"
  by (rule kebab_lower) (simp add: kebabChar_def)

lemma initial_shape:
  "buildLastPlusFirstInitialRegex P lastN firstN =
     lits (canonicalKebab P lastN) @ lits [45] @ lits (take 1 (canonicalKebab P firstN))
       @ (AlnumHyphen, Star) # lits [45] @ digits4"
  by (simp add: buildLastPlusFirstInitialRegex_def Let_def)

lemma lastOnly_shape:
  "buildLastOnlyRegex P lastN =
     lits (canonicalKebab P lastN) @ lits [45] @ (AlnumHyphen, Plus) # lits [45] @ digits4"
  by (simp add: buildLastOnlyRegex_def Let_def)

lemma firstLetter_shape:
  "buildFirstLetterRegex P lastN =
     lits (take 1 (canonicalKebab P lastN)) @ (AlnumHyphen, Star) # lits [45] @ digits4"
proof -
  have "\<forall>c\<in>set (take 1 (canonicalKebab P lastN)). kebabChar c"
    using canonicalKebab_kebabChar[of P lastN] by (meson in_set_takeD)
  then have "toLowerCase P (take 1 (canonicalKebab P lastN)) = take 1 (canonicalKebab P lastN)"
    by (rule kebabChar_toLowerCase)
  then show ?thesis by (simp add: buildFirstLetterRegex_def Let_def)
qed

section \<open>Properties of \<open>sanitizeName\<close>\<close>


lemma noRun_append: "noRun p (xs @ ys) \<Longrightarrow> noRun p xs \<and> noRun p ys"
proof (induction xs)
  case Nil
  then show ?case by simp
next
  case (Cons x xs)
  then show ?case by (cases xs; cases ys) (auto simp: noRun_Cons)
qed

lemma noRun_dropWhile: "noRun p s \<Longrightarrow> noRun p (dropWhile q s)"
  using noRun_append[of p "takeWhile q s" "dropWhile q s"] by simp

lemma rev_dropWhile_rev: "s = rev (dropWhile q (rev s)) @ rev (takeWhile q (rev s))"
proof -
  have "rev (takeWhile q (rev s) @ dropWhile q (rev s)) = s"
    by (simp only: takeWhile_dropWhile_id rev_rev_ident)
  then show ?thesis unfolding rev_append by (rule sym)
qed

lemma noRun_trim: "noRun p s \<Longrightarrow> noRun p (trim s)"
proof -
  assume a: "noRun p s"
  let ?d = "dropWhile isWhiteSpace s"
  have d: "noRun p ?d" using a by (rule noRun_dropWhile)
  have "?d = trim s @ rev (takeWhile isWhiteSpace (rev ?d))"
    unfolding trim_def by (rule rev_dropWhile_rev)
  then show ?thesis using d noRun_append[of p "trim s"] by metis
qed

lemma set_trim: "set (trim s) \<subseteq> set s"
proof -
  have "set (trim s) = set (dropWhile isWhiteSpace (rev (dropWhile isWhiteSpace s)))"
    by (simp add: trim_def)
  also have "\<dots> \<subseteq> set (rev (dropWhile isWhiteSpace s))" by (meson set_dropWhileD subsetI)
  also have "\<dots> \<subseteq> set s" by (auto dest: set_dropWhileD)
  finally show ?thesis .
qed

lemma dropWhile_rev_last: "s \<noteq> [] \<Longrightarrow> \<not> q (List.last s) \<Longrightarrow> dropWhile q (rev s) = rev s"
  by (induction s rule: rev_induct) auto

lemma trim_fixed:
  assumes "s = [] \<or> (\<not> isWhiteSpace (hd s) \<and> \<not> isWhiteSpace (List.last s))"
  shows "trim s = s"
proof (cases s)
  case Nil
  then show ?thesis by (simp add: trim_def)
next
  case (Cons c cs)
  with assms have h: "\<not> isWhiteSpace c" and l: "\<not> isWhiteSpace (List.last s)" by auto
  have 1: "dropWhile isWhiteSpace s = s" using h Cons by simp
  have 2: "dropWhile isWhiteSpace (rev s) = rev s"
    by (rule dropWhile_rev_last) (use Cons l in simp_all)
  show ?thesis by (simp add: trim_def 1 2)
qed

lemma trim_edges: "trim s = [] \<or> (\<not> isWhiteSpace (hd (trim s)) \<and> \<not> isWhiteSpace (List.last (trim s)))"
proof (cases "trim s = []")
  case True
  then show ?thesis by simp
next
  case False
  let ?d = "dropWhile isWhiteSpace s"
  let ?e = "dropWhile isWhiteSpace (rev ?d)"
  have t: "trim s = rev ?e" by (simp add: trim_def)
  with False have e: "?e \<noteq> []" by simp
  then have "\<not> isWhiteSpace (hd ?e)" by (metis hd_dropWhile)
  then have l: "\<not> isWhiteSpace (List.last (trim s))" using e by (simp add: t last_rev)
  have dd: "?d = trim s @ rev (takeWhile isWhiteSpace (rev ?d))"
    unfolding trim_def by (rule rev_dropWhile_rev)
  have "?d \<noteq> []" using e by (cases ?d) simp_all
  then have "\<not> isWhiteSpace (hd ?d)" by (metis hd_dropWhile)
  moreover have "hd ?d = hd (trim s)" using dd False by (metis hd_append2)
  ultimately show ?thesis using l by simp
qed

lemma trim_idem: "trim (trim s) = trim s"
  by (rule trim_fixed) (rule trim_edges)

lemma post_chars:
  assumes "c \<in> set (post x)"
  shows "c \<noteq> 45 \<and> c \<noteq> 95 \<and> (isWhiteSpace c \<longrightarrow> c = 32) \<and> (c \<in> set x \<or> c = 32)"
proof -
  let ?m = "dashesToSpaces x"
  from assms have "c \<in> set (collapseRuns isWhiteSpace 32 ?m)"
    using set_trim unfolding post_def by blast
  then have d: "(c \<in> set ?m \<and> \<not> isWhiteSpace c) \<or> c = 32"
    using set_collapseRuns[of isWhiteSpace 32 ?m] by auto
  have m: "c \<in> set ?m \<Longrightarrow> c \<noteq> 45 \<and> c \<noteq> 95 \<and> (c \<in> set x \<or> c = 32)"
    by (auto simp: dashesToSpaces_def split: if_splits)
  from d m show ?thesis by auto
qed

lemma post_idem: "post (post x) = post x"
proof -
  let ?t = "post x"
  have 1: "dashesToSpaces ?t = ?t"
    unfolding dashesToSpaces_def by (rule map_idI) (use post_chars[of _ x] in auto)
  have "noRun isWhiteSpace (collapseRuns isWhiteSpace 32 (dashesToSpaces x))"
    by (rule noRun_collapseRuns) (simp add: isWhiteSpace_def)
  then have nr: "noRun isWhiteSpace ?t" unfolding post_def by (rule noRun_trim)
  have 2: "collapseRuns isWhiteSpace 32 ?t = ?t"
    by (rule collapseRuns_fixed) (use post_chars[of _ x] nr in auto)
  have 3: "trim ?t = ?t" unfolding post_def by (rule trim_idem)
  show ?thesis by (subst (1) post_def) (simp only: 1 2 3)
qed

lemma sanitizeName_post:
  "sanitizeName P s = post (stripDiacritics P (normalizeNFD P (toLowerCase P s)))"
  by (simp add: sanitizeName_def post_def)

lemma sanitizeName_fixed:
  assumes "stripDiacritics P (normalizeNFD P (toLowerCase P (sanitizeName P s))) = sanitizeName P s"
  shows "sanitizeName P (sanitizeName P s) = sanitizeName P s"
proof -
  have "sanitizeName P (sanitizeName P s) = post (sanitizeName P s)"
    by (subst sanitizeName_post) (simp only: assms)
  also have "\<dots> = sanitizeName P s" unfolding sanitizeName_post by (rule post_idem)
  finally show ?thesis .
qed

lemma pre_plain:
  assumes "\<forall>c\<in>set t. plainAscii c"
  shows "stripDiacritics P (normalizeNFD P (toLowerCase P t)) = t"
proof -
  have a: "isAscii t" using assms by (auto simp: isAscii_def list_all_iff plainAscii_def)
  have l: "map asciiLower t = t"
    by (rule map_idI) (use assms in \<open>auto simp: plainAscii_def asciiLower_def\<close>)
  have f: "filter (\<lambda>c. c \<noteq> 94 \<and> c \<noteq> 96) t = t"
    using assms by (auto simp: filter_id_conv plainAscii_def)
  show ?thesis by (simp add: toLowerCase_def normalizeNFD_def stripDiacritics_def a l f)
qed

lemma sanitizeName_ascii_plain:
  assumes "isAscii s"
  shows "\<forall>c\<in>set (sanitizeName P s). plainAscii c"
proof
  fix c assume c: "c \<in> set (sanitizeName P s)"
  define x where "x = stripDiacritics P (normalizeNFD P (toLowerCase P s))"
  have "\<And>d. d < 128 \<Longrightarrow> asciiLower d < 128" by (simp add: asciiLower_def)
  then have la: "isAscii (map asciiLower s)"
    using assms by (simp add: isAscii_def list_all_iff)
  have x: "x = filter (\<lambda>c. c \<noteq> 94 \<and> c \<noteq> 96) (map asciiLower s)"
    by (simp add: x_def toLowerCase_def normalizeNFD_def stripDiacritics_def assms la)
  have px: "plainAscii e" if "e \<in> set x" for e
  proof -
    from that obtain d where d: "d \<in> set s" "e = asciiLower d" "e \<noteq> 94" "e \<noteq> 96"
      unfolding x by auto
    have "d < 128" using assms d(1) by (simp add: isAscii_def list_all_iff)
    then show "plainAscii e" using d(2-4) by (simp add: plainAscii_def asciiLower_def)
  qed
  have "c \<in> set (post x)" using c by (simp only: sanitizeName_post x_def)
  then have cx: "c \<in> set x \<or> c = 32" by (rule post_chars[THEN conjunct2, THEN conjunct2, THEN conjunct2])
  have "plainAscii 32" by (simp add: plainAscii_def)
  with cx px[of c] show "plainAscii c" by auto
qed

lemma sanitizeName_ascii_idem:
  "isAscii s \<Longrightarrow> sanitizeName P (sanitizeName P s) = sanitizeName P s"
  by (rule sanitizeName_fixed) (rule pre_plain, rule sanitizeName_ascii_plain)

section \<open>Properties of the loop\<close>




lemma checkRegex_total:
  assumes "clockAdvances B"
  shows "\<exists>r w'. checkRegex B P re searchRoot timeout start w = Some (r, w')"
proof (induction "nat (start + timeout + 1 - now B w)" arbitrary: w rule: less_induct)
  case less
  show ?case
  proof (cases "findNodesByRegex B P w re searchRoot \<noteq> [] \<or> now B w - start > timeout")
    case True
    then show ?thesis by (subst checkRegex.simps) (auto simp: Let_def)
  next
    case False
    have "now B w < now B (sleep B 500 w)" using assms by (simp add: clockAdvances_def)
    with False have "nat (start + timeout + 1 - now B (sleep B 500 w))
        < nat (start + timeout + 1 - now B w)" by auto
    from less[OF this] obtain r w' where
      "checkRegex B P re searchRoot timeout start (sleep B 500 w) = Some (r, w')" by blast
    with False show ?thesis by (subst checkRegex.simps) (auto simp: Let_def)
  qed
qed

lemma checkExact_total:
  assumes "clockAdvances B"
  shows "\<exists>r w'. checkExact B P n searchRoot timeout start w = Some (r, w')"
proof (induction "nat (start + timeout + 1 - now B w)" arbitrary: w rule: less_induct)
  case less
  show ?case
  proof (cases "findNodeExact B P w n searchRoot \<noteq> None \<or> now B w - start > timeout")
    case True
    then show ?thesis by (subst checkExact.simps) (auto split: option.splits)
  next
    case False
    have "now B w < now B (sleep B 500 w)" using assms by (simp add: clockAdvances_def)
    with False have "nat (start + timeout + 1 - now B (sleep B 500 w))
        < nat (start + timeout + 1 - now B w)" by auto
    from less[OF this] obtain r w' where
      "checkExact B P n searchRoot timeout start (sleep B 500 w) = Some (r, w')" by blast
    with False show ?thesis by (subst checkExact.simps) (auto split: option.splits)
  qed
qed

lemma expand_total:
  assumes "clockAdvances B"
  shows "\<exists>r w'. expand B P n searchRoot w = Some (r, w')"
proof -
  obtain r w' where "waitForMatchExact B P n searchRoot 5000 w = Some (r, w')"
    unfolding waitForMatchExact_def using checkExact_total[OF assms] by blast
  then show ?thesis by (cases r) (auto simp: expand_def)
qed

lemma expandPath_total:
  assumes "clockAdvances B"
  shows "\<exists>r w'. expandPath B P ns searchRoot w = Some (r, w')"
proof (induction ns arbitrary: searchRoot w)
  case Nil
  then show ?case by simp
next
  case (Cons n ns)
  obtain r w1 where e: "expand B P n searchRoot w = Some (r, w1)"
    using expand_total[OF assms] by blast
  show ?case
  proof (cases r)
    case (Inl e')
    with e show ?thesis by simp
  next
    case (Inr node)
    with e Cons[of node w1] show ?thesis by simp
  qed
qed

lemma clickFirstRegex_total:
  assumes "clockAdvances B"
  shows "\<exists>r w'. clickFirstRegex B P re searchRoot timeout w = Some (r, w')"
proof -
  obtain r w' where "waitForRegex B P re searchRoot timeout w = Some (r, w')"
    unfolding waitForRegex_def using checkRegex_total[OF assms] by blast
  then show ?thesis
    by (cases r) (auto simp: clickFirstRegex_def split: list.splits option.splits)
qed

lemma fallbackTier_total:
  assumes "clockAdvances B"
  shows "\<exists>d w'. fallbackTier B P re searchRoot w = Some (d, w')"
proof -
  obtain r w' where "clickFirstRegex B P re searchRoot 2000 w = Some (r, w')"
    using clickFirstRegex_total[OF assms] by blast
  then show ?thesis by (cases r) (auto simp: fallbackTier_def split: bool.splits)
qed

lemma fallbacks_total:
  assumes "clockAdvances B"
  shows "\<exists>w'. fallbacks B P pn searchRoot w = Some w'"
proof -
  obtain d2 w2 where 2: "fallbackTier B P (buildLastPlusFirstInitialRegex P (last_n pn) (first_n pn))
      searchRoot w = Some (d2, w2)" using fallbackTier_total[OF assms] by blast
  obtain d3 w3 where 3: "fallbackTier B P (buildLastOnlyRegex P (last_n pn)) searchRoot w2
      = Some (d3, w3)" using fallbackTier_total[OF assms] by blast
  obtain d4 w4 where 4: "fallbackTier B P (buildFirstLetterRegex P (last_n pn)) searchRoot w3
      = Some (d4, w4)" using fallbackTier_total[OF assms] by blast
  show ?thesis by (cases d2; cases d3) (simp_all add: fallbacks_def 2 3 4)
qed

text \<open>What the \<open>try\<close> block can do to an entry.\<close>

lemma tryBody_name:
  assumes "tryBody B P p w = Some (r, p', w')"
  shows "name p' = name p"
  using assms
  by (auto simp: tryBody_def split: sum.splits option.splits prod.splits bool.splits)


lemma tryBody_total:
  assumes "clockAdvances B"
  shows "\<exists>r p' w'. tryBody B P p w = Some (r, p', w')"
proof (cases "parsePersonName P (name p)")
  case (Inl e)
  then show ?thesis by (simp add: tryBody_def)
next
  case pn: (Inr pn)
  show ?thesis
  proof (cases "computeLetterAndRange P (last_n pn)")
    case (Inl e)
    with pn show ?thesis by (simp add: tryBody_def)
  next
    case f: (Inr f)
    obtain r1 w1 where x: "expandPath B P (BASE_PATH @ [letterFolder f, rangeFolder f]) Document w
        = Some (r1, w1)" using expandPath_total[OF assms] by blast
    show ?thesis
    proof (cases r1)
      case (Inl e)
      with pn f x show ?thesis by (simp add: tryBody_def)
    next
      case root: (Inr root)
      obtain r2 w2 where c: "clickFirstRegex B P (buildExactRegex P (last_n pn) (first_n pn))
          root 3000 w1 = Some (r2, w2)" using clickFirstRegex_total[OF assms] by blast
      obtain w3 where fb: "fallbacks B P pn root w2 = Some w3"
        using fallbacks_total[OF assms] by blast
      show ?thesis
        using pn f x root c fb
        by (cases r2; cases "getHeadshotImageString B w2 root")
           (auto simp: tryBody_def split: bool.splits)
    qed
  qed
qed



lemma checkRegex_found:
  "findNodesByRegex B P w re r \<noteq> []
   \<Longrightarrow> checkRegex B P re r t s w = Some (Inr (findNodesByRegex B P w re r), w)"
  by (subst checkRegex.simps) (simp add: Let_def)

lemma checkRegex_timeout:
  "findNodesByRegex B P w re r = [] \<Longrightarrow> now B w - s > t
   \<Longrightarrow> checkRegex B P re r t s w = Some (Inl Timeout, w)"
  by (subst checkRegex.simps) (simp add: Let_def)

lemma checkRegex_retry:
  "findNodesByRegex B P w re r = [] \<Longrightarrow> \<not> now B w - s > t
   \<Longrightarrow> checkRegex B P re r t s w = checkRegex B P re r t s (sleep B 500 w)"
  by (subst checkRegex.simps) (simp add: Let_def)

lemma checkExact_found:
  "findNodeExact B P w n r \<noteq> None
   \<Longrightarrow> checkExact B P n r t s w = Some (Inr (the (findNodeExact B P w n r)), w)"
  by (subst checkExact.simps) auto

lemma checkExact_timeout:
  "findNodeExact B P w n r = None \<Longrightarrow> now B w - s > t
   \<Longrightarrow> checkExact B P n r t s w = Some (Inl Timeout, w)"
  by (subst checkExact.simps) simp

lemma checkExact_retry:
  "findNodeExact B P w n r = None \<Longrightarrow> \<not> now B w - s > t
   \<Longrightarrow> checkExact B P n r t s w = checkExact B P n r t s (sleep B 500 w)"
  by (subst checkExact.simps) simp

lemma countdownWaits_numeral:
  "countdownWaits B (numeral k) w =
     (if userReady B w then w else countdownWaits B (pred_numeral k) (sleep B 5000 w))"
  by (simp add: numeral_eq_Suc)


lemma processPerson_total:
  assumes "clockAdvances B"
  shows "\<exists>p' w'. processPerson B P p w = Some (p', w')"
proof -
  obtain r p' w' where "tryBody B P p w = Some (r, p', w')"
    using tryBody_total[OF assms] by blast
  then show ?thesis by (simp add: processPerson_def)
qed

lemma processPerson_name:
  assumes "processPerson B P p w = Some (p', w')"
  shows "name p' = name p"
proof -
  from assms obtain r where "tryBody B P p w = Some (r, p', w')"
    by (auto simp: processPerson_def split: option.splits)
  then show ?thesis by (rule tryBody_name)
qed


lemma processAll_total:
  assumes "clockAdvances B"
  shows "\<exists>rs w'. processAll B P ps w = Some (rs, w')"
proof (induction ps arbitrary: w)
  case Nil
  then show ?case by simp
next
  case (Cons p ps)
  obtain p' w1 where 1: "processPerson B P p w = Some (p', w1)"
    using processPerson_total[OF assms] by blast
  obtain rs w2 where 2: "processAll B P ps w1 = Some (rs, w2)" using Cons by blast
  show ?case by (simp add: 1 2)
qed

lemma processAll_names:
  "processAll B P ps w = Some (rs, w') \<Longrightarrow> map name rs = map name ps"
proof (induction ps arbitrary: w rs)
  case Nil
  then show ?case by simp
next
  case (Cons p ps)
  from Cons.prems obtain p' w1 rs' where
    1: "processPerson B P p w = Some (p', w1)" and
    2: "processAll B P ps w1 = Some (rs', w')" and 3: "rs = p' # rs'"
    by (auto split: option.splits)
  from processPerson_name[OF 1] Cons.IH[OF 2] 3 show ?case by simp
qed


lemma tryBody_exact:
  assumes "clockAdvances B"
    and "parsePersonName P (name p) = Inr pn"
    and "computeLetterAndRange P (last_n pn) = Inr f"
    and "expandPath B P (BASE_PATH @ [letterFolder f, rangeFolder f]) Document w
           = Some (Inr searchRoot, w1)"
    and "clickFirstRegex B P (buildExactRegex P (last_n pn) (first_n pn)) searchRoot 3000 w1
           = Some (r, w2)"
  shows "\<exists>p' w'. tryBody B P p w = Some (Inr (), p', w') \<and> name p' = name p
           \<and> (found p' \<longleftrightarrow> found p \<or> r = Inr True) \<and> (r \<noteq> Inr True \<longrightarrow> p' = p)"
proof -
  obtain w3 where fb: "fallbacks B P pn searchRoot w2 = Some w3"
    using fallbacks_total[OF assms(1)] by blast
  show ?thesis
    using assms(2-5) fb
    by (cases r; cases "getHeadshotImageString B w2 searchRoot")
       (auto simp: tryBody_def split: bool.splits)
qed

text \<open>A tier that does not return a clicked match hands over to the next one.\<close>

lemma fallbackTier_fails:
  "clickFirstRegex B P re searchRoot 2000 w = Some (r, w') \<Longrightarrow> r \<noteq> Inr True
   \<Longrightarrow> fallbackTier B P re searchRoot w = Some (False, w')"
  by (cases r) (auto simp: fallbackTier_def split: bool.splits)

lemma fallbackTier_succeeds:
  "clickFirstRegex B P re searchRoot 2000 w = Some (Inr True, w')
   \<Longrightarrow> fallbackTier B P re searchRoot w = Some (True, w')"
  by (simp add: fallbackTier_def)

lemma tryBody_fallbacks:
  assumes "parsePersonName P (name p) = Inr pn"
    and "computeLetterAndRange P (last_n pn) = Inr f"
    and "expandPath B P (BASE_PATH @ [letterFolder f, rangeFolder f]) Document w
           = Some (Inr searchRoot, w1)"
    and "clickFirstRegex B P (buildExactRegex P (last_n pn) (first_n pn)) searchRoot 3000 w1
           = Some (r1, w2)" and "r1 \<noteq> Inr True"
    and "fallbacks B P pn searchRoot w2 = Some w'"
  shows "processPerson B P p w = Some (p, w')"
proof -
  have "tryBody B P p w = Some (Inr (), p, w')"
    using assms by (cases r1) (auto simp: tryBody_def split: bool.splits)
  then show ?thesis by (simp add: processPerson_def)
qed

text \<open>
  What a clicked match is: the poll that ended the wait found matching nodes, and the span
  of the first of them was clicked before \<open>countdown(0)\<close> ran.
\<close>

lemma checkRegex_matches:
  assumes "checkRegex B P re searchRoot timeout start w = Some y"
  shows "\<forall>ms wm. y = (Inr ms, wm) \<longrightarrow> ms = findNodesByRegex B P wm re searchRoot \<and> ms \<noteq> []"
proof -
  have "(case ((((((B, P), re), searchRoot), timeout), start), w) of
          ((((((B, P), re), sr), t), s), w) \<Rightarrow>
            \<lambda>y. \<forall>ms wm. y = (Inr ms, wm) \<longrightarrow> ms = findNodesByRegex B P wm re sr \<and> ms \<noteq> []) y"
    by (rule checkRegex.raw_induct[where Pa = "\<lambda>x y. (case x of
          ((((((B, P), re), sr), t), s), w) \<Rightarrow>
            \<lambda>y. \<forall>ms wm. y = (Inr ms, wm) \<longrightarrow> ms = findNodesByRegex B P wm re sr \<and> ms \<noteq> []) y",
        OF _ assms])
       (auto simp: Let_def split: if_splits)
  then show ?thesis by simp
qed

lemma clickFirstRegex_clicked:
  assumes "clickFirstRegex B P re searchRoot timeout w = Some (Inr True, w')"
  shows "\<exists>wm node rest. findNodesByRegex B P wm re searchRoot = node # rest
           \<and> w' = countdown0 B (clickSpan B node wm)"
proof -
  from assms obtain ms wm where
    1: "waitForRegex B P re searchRoot timeout w = Some (Inr ms, wm)"
    by (auto simp: clickFirstRegex_def split: option.splits sum.splits prod.splits list.splits)
  then have "checkRegex B P re searchRoot timeout (now B w) w = Some (Inr ms, wm)"
    by (simp add: waitForRegex_def)
  from checkRegex_matches[OF this] have 2: "ms = findNodesByRegex B P wm re searchRoot"
    and 3: "ms \<noteq> []" by auto
  from 3 obtain node rest where 4: "ms = node # rest" by (cases ms) auto
  from assms 1 4 have 5: "w' = countdown0 B (clickSpan B node wm)"
    by (auto simp: clickFirstRegex_def split: option.splits)
  have "findNodesByRegex B P wm re searchRoot = node # rest" using 2 4 by simp
  with 5 show ?thesis by (intro exI[of _ wm] exI[of _ node] exI[of _ rest] conjI)
qed

lemma fallbacks_first:
  "clickFirstRegex B P (buildLastPlusFirstInitialRegex P (last_n pn) (first_n pn)) searchRoot
      2000 w = Some (Inr True, w')
   \<Longrightarrow> fallbacks B P pn searchRoot w = Some w'"
  by (simp add: fallbacks_def fallbackTier_succeeds)

lemma fallbacks_second:
  "clickFirstRegex B P (buildLastPlusFirstInitialRegex P (last_n pn) (first_n pn)) searchRoot
      2000 w = Some (r2, w3) \<Longrightarrow> r2 \<noteq> Inr True
   \<Longrightarrow> clickFirstRegex B P (buildLastOnlyRegex P (last_n pn)) searchRoot 2000 w3
         = Some (Inr True, w')
   \<Longrightarrow> fallbacks B P pn searchRoot w = Some w'"
  by (simp add: fallbacks_def fallbackTier_succeeds fallbackTier_fails)

lemma fallbacks_third:
  "clickFirstRegex B P (buildLastPlusFirstInitialRegex P (last_n pn) (first_n pn)) searchRoot
      2000 w = Some (r2, w3) \<Longrightarrow> r2 \<noteq> Inr True
   \<Longrightarrow> clickFirstRegex B P (buildLastOnlyRegex P (last_n pn)) searchRoot 2000 w3
         = Some (r3, w4) \<Longrightarrow> r3 \<noteq> Inr True
   \<Longrightarrow> clickFirstRegex B P (buildFirstLetterRegex P (last_n pn)) searchRoot 2000 w4
         = Some (Inr True, w')
   \<Longrightarrow> fallbacks B P pn searchRoot w = Some w'"
  by (simp add: fallbacks_def fallbackTier_succeeds fallbackTier_fails)

section \<open>Evaluation on concrete inputs\<close>

text \<open>The defining equations that the simplifier needs to run the model on a literal.\<close>

lemmas kebab_eval = canonicalKebab_def asciiPlatform_def toLowerCase_def toUpperCase_def
  normalizeNFD_def stripDiacritics_def isAscii_def asciiLower_def asciiUpper_def
  dropNonKebab_def isLowerAlnum_def isWhiteSpace_def isHyphen_def stripEdgeHyphens_def

lemma digits4_items: "digits4 = [(Digit, One), (Digit, One), (Digit, One), (Digit, One)]"
  by (simp add: digits4_def numeral_eq_Suc)

lemmas regex_eval = regexTest_def buildExactRegex_def buildLastPlusFirstInitialRegex_def
  buildLastOnlyRegex_def buildFirstLetterRegex_def lits_def digits4_items csetMatch_def
  canonicalize_def

lemmas sanitize_eval = sanitizeName_def trim_def dashesToSpaces_def

lemmas tibetan_eval = tibetanPlatform_def ccc_def

lemmas loop_eval = checkRegex_found checkRegex_timeout checkRegex_retry
  checkExact_found checkExact_timeout checkExact_retry countdownWaits_numeral
  findNodeExact_def findNodesByRegex_def waitForMatchExact_def waitForRegex_def expand_def
  clickFirstRegex_def countdown0_def

lemma demo_fields:
  "treeNodes demoBrowser w r = map Node (demoTree r)"
  "spanText demoBrowser w (Node k) = demoText k"
  "hasArrow demoBrowser w r = True"
  "isExpanded demoBrowser w r = True"
  "clickSpan demoBrowser r w = w\<lparr>clicked := clicked w @ [r]\<rparr>"
  "now demoBrowser w = clock w"
  "sleep demoBrowser d w = w\<lparr>clock := clock w + int d, ready := True\<rparr>"
  "userReady demoBrowser w = ready w"
  "setUserReady demoBrowser b w = w\<lparr>ready := b\<rparr>"
  "pageGlobal demoBrowser w x = None"
  by (simp_all add: demoBrowser_def)

lemma demo_sanitized:
  "sanitizeName asciiPlatform (u ''Redesign Data'') = u ''redesign data''"
  "sanitizeName asciiPlatform (u ''Modules Global Data'') = u ''modules global data''"
  "sanitizeName asciiPlatform (u ''People Cards'') = u ''people cards''"
  "sanitizeName asciiPlatform (u ''People Card Data'') = u ''people card data''"
  "sanitizeName asciiPlatform (u ''S'') = u ''s''"
  "sanitizeName asciiPlatform (u ''Sa-Si'') = u ''sa si''"
  "sanitizeName asciiPlatform (u ''Sj-Sr'') = u ''sj sr''"
  "sanitizeName asciiPlatform (u '' smith-jane-1234 '') = u ''smith jane 1234''"
  by (simp_all add: sanitize_eval kebab_eval)

lemmas demo_eval = demo_fields demoText_def demoTree_def

lemma demo_clock: "clockAdvances demoBrowser"
  by (simp add: clockAdvances_def demoBrowser_def)


lemma demo_parse:
  "parsePersonName asciiPlatform (u ''Jane Smith'') = Inr \<lparr>first_n = u ''jane'', last_n = u ''smith''\<rparr>"
  "parsePersonName asciiPlatform (u ''John Smith'') = Inr \<lparr>first_n = u ''john'', last_n = u ''smith''\<rparr>"
  "parsePersonName asciiPlatform (u ''Sam Saab'') = Inr \<lparr>first_n = u ''sam'', last_n = u ''saab''\<rparr>"
  by (simp_all add: parsePersonName_def sanitize_eval kebab_eval)

lemma demo_folders:
  "computeLetterAndRange asciiPlatform (u ''smith'') = Inr \<lparr>letterFolder = u ''S'', rangeFolder = u ''Sj-Sr''\<rparr>"
  "computeLetterAndRange asciiPlatform (u ''saab'') = Inr \<lparr>letterFolder = u ''S'', rangeFolder = u ''Sa-Si''\<rparr>"
  by (simp_all add: computeLetterAndRange_def kebab_eval)

lemma demo_expand:
  "expandPath demoBrowser asciiPlatform (BASE_PATH @ [u ''S'', u ''Sj-Sr'']) Document w
     = Some (Inr (Node 7), w)"
  "expandPath demoBrowser asciiPlatform (BASE_PATH @ [u ''S'', u ''Sa-Si'']) Document w
     = Some (Inr (Node 6), w)"
  using demo_sanitized by (simp_all add: loop_eval demo_eval BASE_PATH_def)

lemma demo_exact_jane:
  "clickFirstRegex demoBrowser asciiPlatform
     (buildExactRegex asciiPlatform (u ''smith'') (u ''jane'')) (Node 7) 3000 demoStart
   = Some (Inr True, \<lparr>clock = 5000, ready = True, clicked = [Node 8]\<rparr>)"
  by (simp add: loop_eval demo_eval demoStart_def trim_def kebab_eval regex_eval)


lemma demo_exact_john:
  "clickFirstRegex demoBrowser asciiPlatform
     (buildExactRegex asciiPlatform (u ''smith'') (u ''john'')) (Node 7) 3000 demoStart
   = Some (Inl Timeout, \<lparr>clock = 3500, ready = True, clicked = []\<rparr>)"
  by (simp add: loop_eval demo_eval demoStart_def trim_def kebab_eval regex_eval)

lemma demo_initial_john:
  "clickFirstRegex demoBrowser asciiPlatform
     (buildLastPlusFirstInitialRegex asciiPlatform (u ''smith'') (u ''john'')) (Node 7) 2000
     \<lparr>clock = 3500, ready = True, clicked = []\<rparr>
   = Some (Inr True, \<lparr>clock = 8500, ready = True, clicked = [Node 8]\<rparr>)"
  by (simp add: loop_eval demo_eval trim_def kebab_eval regex_eval)

lemma demo_empty_folder:
  "clickFirstRegex demoBrowser asciiPlatform re (Node 6) 3000 \<lparr>clock = 0, ready = False, clicked = []\<rparr>
   = Some (Inl Timeout, \<lparr>clock = 3500, ready = True, clicked = []\<rparr>)"
  "clickFirstRegex demoBrowser asciiPlatform re (Node 6) 2000 \<lparr>clock = 3500, ready = True, clicked = []\<rparr>
   = Some (Inl Timeout, \<lparr>clock = 6000, ready = True, clicked = []\<rparr>)"
  "clickFirstRegex demoBrowser asciiPlatform re (Node 6) 2000 \<lparr>clock = 6000, ready = True, clicked = []\<rparr>
   = Some (Inl Timeout, \<lparr>clock = 8500, ready = True, clicked = []\<rparr>)"
  "clickFirstRegex demoBrowser asciiPlatform re (Node 6) 2000 \<lparr>clock = 8500, ready = True, clicked = []\<rparr>
   = Some (Inl Timeout, \<lparr>clock = 11000, ready = True, clicked = []\<rparr>)"
  by (simp_all add: loop_eval demo_eval)

lemma demo_run_john:
  "peopleCardFinder demoBrowser asciiPlatform [u ''John Smith''] demoStart
   = Some (Some [\<lparr>name = u ''John Smith'', found = False, headshotImgString = JNull\<rparr>],
           \<lparr>clock = 8500, ready = True, clicked = [Node 8]\<rparr>)"
  using demo_parse(2) demo_folders(1) demo_expand(1)[of demoStart] demo_exact_john demo_initial_john
  by (simp add: peopleCardFinder_def peopleCardData_def processPerson_def tryBody_def
      fallbacks_def fallbackTier_def)



lemma demo_parse_more:
  "parsePersonName asciiPlatform (u ''Bob Smith'') = Inr \<lparr>first_n = u ''bob'', last_n = u ''smith''\<rparr>"
  "parsePersonName asciiPlatform (u ''Ann Snow'') = Inr \<lparr>first_n = u ''ann'', last_n = u ''snow''\<rparr>"
  by (simp_all add: parsePersonName_def sanitize_eval kebab_eval)

lemma demo_folders_more:
  "computeLetterAndRange asciiPlatform (u ''snow'') = Inr \<lparr>letterFolder = u ''S'', rangeFolder = u ''Sj-Sr''\<rparr>"
  by (simp_all add: computeLetterAndRange_def kebab_eval)

lemma demo_bob:
  "clickFirstRegex demoBrowser asciiPlatform
     (buildExactRegex asciiPlatform (u ''smith'') (u ''bob'')) (Node 7) 3000 demoStart
   = Some (Inl Timeout, \<lparr>clock = 3500, ready = True, clicked = []\<rparr>)"
  "clickFirstRegex demoBrowser asciiPlatform
     (buildLastPlusFirstInitialRegex asciiPlatform (u ''smith'') (u ''bob'')) (Node 7) 2000
     \<lparr>clock = 3500, ready = True, clicked = []\<rparr>
   = Some (Inl Timeout, \<lparr>clock = 6000, ready = True, clicked = []\<rparr>)"
  "clickFirstRegex demoBrowser asciiPlatform
     (buildLastOnlyRegex asciiPlatform (u ''smith'')) (Node 7) 2000
     \<lparr>clock = 6000, ready = True, clicked = []\<rparr>
   = Some (Inr True, \<lparr>clock = 11000, ready = True, clicked = [Node 8]\<rparr>)"
  by (simp_all add: loop_eval demo_eval demoStart_def trim_def kebab_eval regex_eval)

lemma demo_ann:
  "clickFirstRegex demoBrowser asciiPlatform
     (buildExactRegex asciiPlatform (u ''snow'') (u ''ann'')) (Node 7) 3000 demoStart
   = Some (Inl Timeout, \<lparr>clock = 3500, ready = True, clicked = []\<rparr>)"
  "clickFirstRegex demoBrowser asciiPlatform
     (buildLastPlusFirstInitialRegex asciiPlatform (u ''snow'') (u ''ann'')) (Node 7) 2000
     \<lparr>clock = 3500, ready = True, clicked = []\<rparr>
   = Some (Inl Timeout, \<lparr>clock = 6000, ready = True, clicked = []\<rparr>)"
  "clickFirstRegex demoBrowser asciiPlatform
     (buildLastOnlyRegex asciiPlatform (u ''snow'')) (Node 7) 2000
     \<lparr>clock = 6000, ready = True, clicked = []\<rparr>
   = Some (Inl Timeout, \<lparr>clock = 8500, ready = True, clicked = []\<rparr>)"
  "clickFirstRegex demoBrowser asciiPlatform
     (buildFirstLetterRegex asciiPlatform (u ''snow'')) (Node 7) 2000
     \<lparr>clock = 8500, ready = True, clicked = []\<rparr>
   = Some (Inr True, \<lparr>clock = 13500, ready = True, clicked = [Node 8]\<rparr>)"
  by (simp_all add: loop_eval demo_eval demoStart_def trim_def kebab_eval regex_eval)

lemma demo_card:
  "findNodesByRegex demoBrowser asciiPlatform w
     (buildLastPlusFirstInitialRegex asciiPlatform (u ''smith'') (u ''john'')) (Node 7) = [Node 8]"
  "findNodesByRegex demoBrowser asciiPlatform w
     (buildLastOnlyRegex asciiPlatform (u ''smith'')) (Node 7) = [Node 8]"
  "findNodesByRegex demoBrowser asciiPlatform w
     (buildFirstLetterRegex asciiPlatform (u ''snow'')) (Node 7) = [Node 8]"
  by (simp_all add: findNodesByRegex_def demo_eval trim_def kebab_eval regex_eval)






section \<open>The claims on the folder path\<close>

text \<open>
  C2: when the canonical last name (kebab form without hyphens) starts with a letter,
  \<open>computeLetterAndRange\<close> returns the letter folder and a range folder built from one of
  the three buckets a-i, j-r, s-z; and two last names whose canonical forms agree on the
  second character (or both have none) get the same bucket.
\<close>

theorem computeLetterAndRange_bucket:
  assumes "filter (\<lambda>x. x \<noteq> 45) (canonicalKebab P lastN) = c # rest"
    and "65 \<le> asciiUpper c \<and> asciiUpper c \<le> 90"
    and "filter (\<lambda>x. x \<noteq> 45) (canonicalKebab P lastN') = c' # rest'"
    and "65 \<le> asciiUpper c' \<and> asciiUpper c' \<le> 90"
  shows "\<exists>b b'. b \<in> {(u ''a'', u ''i''), (u ''j'', u ''r''), (u ''s'', u ''z'')}
           \<and> b' \<in> {(u ''a'', u ''i''), (u ''j'', u ''r''), (u ''s'', u ''z'')}
           \<and> computeLetterAndRange P lastN =
                Inr \<lparr>letterFolder = [asciiUpper c],
                     rangeFolder = [asciiUpper c] @ fst b @ u ''-'' @ [asciiUpper c] @ snd b\<rparr>
           \<and> computeLetterAndRange P lastN' =
                Inr \<lparr>letterFolder = [asciiUpper c'],
                     rangeFolder = [asciiUpper c'] @ fst b' @ u ''-'' @ [asciiUpper c'] @ snd b'\<rparr>
           \<and> (take 1 rest = take 1 rest' \<longrightarrow> b = b')"
proof -
  have lc: "isLowerAlnum c" using clean_chars[of c P lastN] assms(1) by simp
  have lc': "isLowerAlnum c'" using clean_chars[of c' P lastN'] assms(3) by simp
  have c: "97 \<le> c \<and> c \<le> 122" and up: "asciiUpper c = c - 32"
    using lc assms(2) by (auto simp: isLowerAlnum_def asciiUpper_def split: if_splits)
  have c': "97 \<le> c' \<and> c' \<le> 122" and up': "asciiUpper c' = c' - 32"
    using lc' assms(4) by (auto simp: isLowerAlnum_def asciiUpper_def split: if_splits)
  let ?d = "case rest of [] \<Rightarrow> 97 | d # _ \<Rightarrow> d"
  let ?d' = "case rest' of [] \<Rightarrow> 97 | d # _ \<Rightarrow> d"
  let ?b = "([fst (bucketOf ?d)], [snd (bucketOf ?d)])"
  let ?b' = "([fst (bucketOf ?d')], [snd (bucketOf ?d')])"
  have 1: "?b \<in> {(u ''a'', u ''i''), (u ''j'', u ''r''), (u ''s'', u ''z'')}"
    by (simp add: bucketOf_def)
  have 2: "?b' \<in> {(u ''a'', u ''i''), (u ''j'', u ''r''), (u ''s'', u ''z'')}"
    by (simp add: bucketOf_def)
  have 3: "computeLetterAndRange P lastN =
      Inr \<lparr>letterFolder = [asciiUpper c],
           rangeFolder = [asciiUpper c] @ fst ?b @ u ''-'' @ [asciiUpper c] @ snd ?b\<rparr>"
    using compute_letter[OF assms(1) c] by (simp add: up)
  have 4: "computeLetterAndRange P lastN' =
      Inr \<lparr>letterFolder = [asciiUpper c'],
           rangeFolder = [asciiUpper c'] @ fst ?b' @ u ''-'' @ [asciiUpper c'] @ snd ?b'\<rparr>"
    using compute_letter[OF assms(3) c'] by (simp add: up')
  have 5: "take 1 rest = take 1 rest' \<longrightarrow> ?b = ?b'"
    by (cases rest; cases rest') auto
  show ?thesis
    by (rule exI[of _ ?b], rule exI[of _ ?b'], intro conjI 1 2 3 4 5)
qed

theorem computeLetterAndRange_bucket_witness:
  "filter (\<lambda>x. x \<noteq> 45) (canonicalKebab asciiPlatform (u ''Smith'')) = 115 # u ''mith''
   \<and> (65 \<le> asciiUpper 115 \<and> asciiUpper 115 \<le> 90)
   \<and> filter (\<lambda>x. x \<noteq> 45) (canonicalKebab asciiPlatform (u ''Amis-Jones'')) = 97 # u ''misjones''
   \<and> (65 \<le> asciiUpper 97 \<and> asciiUpper 97 \<le> 90)
   \<and> take 1 (u ''mith'') = take 1 (u ''misjones'')
   \<and> (\<exists>b. b \<in> {(u ''a'', u ''i''), (u ''j'', u ''r''), (u ''s'', u ''z'')}
           \<and> computeLetterAndRange asciiPlatform (u ''Smith'') =
                Inr \<lparr>letterFolder = [asciiUpper 115],
                     rangeFolder = [asciiUpper 115] @ fst b @ u ''-'' @ [asciiUpper 115] @ snd b\<rparr>
           \<and> computeLetterAndRange asciiPlatform (u ''Amis-Jones'') =
                Inr \<lparr>letterFolder = [asciiUpper 97],
                     rangeFolder = [asciiUpper 97] @ fst b @ u ''-'' @ [asciiUpper 97] @ snd b\<rparr>)"
proof -
  have h1: "filter (\<lambda>x. x \<noteq> 45) (canonicalKebab asciiPlatform (u ''Smith'')) = 115 # u ''mith''"
    by (simp add: kebab_eval)
  have h2: "65 \<le> asciiUpper 115 \<and> asciiUpper 115 \<le> 90" by (simp add: asciiUpper_def)
  have h3: "filter (\<lambda>x. x \<noteq> 45) (canonicalKebab asciiPlatform (u ''Amis-Jones'')) = 97 # u ''misjones''"
    by (simp add: kebab_eval)
  have h4: "65 \<le> asciiUpper 97 \<and> asciiUpper 97 \<le> 90" by (simp add: asciiUpper_def)
  have h5: "take 1 (u ''mith'') = take 1 (u ''misjones'')" by simp
  from computeLetterAndRange_bucket[OF h1 h2 h3 h4]
  obtain b b' where b: "b \<in> {(u ''a'', u ''i''), (u ''j'', u ''r''), (u ''s'', u ''z'')}"
    and r: "computeLetterAndRange asciiPlatform (u ''Smith'') =
              Inr \<lparr>letterFolder = [asciiUpper 115],
                   rangeFolder = [asciiUpper 115] @ fst b @ u ''-'' @ [asciiUpper 115] @ snd b\<rparr>"
    and r': "computeLetterAndRange asciiPlatform (u ''Amis-Jones'') =
              Inr \<lparr>letterFolder = [asciiUpper 97],
                   rangeFolder = [asciiUpper 97] @ fst b' @ u ''-'' @ [asciiUpper 97] @ snd b'\<rparr>"
    and e: "take 1 (u ''mith'') = take 1 (u ''misjones'') \<longrightarrow> b = b'"
    by (elim exE conjE)
  have bb: "b' = b" using e[THEN mp, OF h5] by (rule sym)
  have c: "\<exists>b. b \<in> {(u ''a'', u ''i''), (u ''j'', u ''r''), (u ''s'', u ''z'')}
           \<and> computeLetterAndRange asciiPlatform (u ''Smith'') =
                Inr \<lparr>letterFolder = [asciiUpper 115],
                     rangeFolder = [asciiUpper 115] @ fst b @ u ''-'' @ [asciiUpper 115] @ snd b\<rparr>
           \<and> computeLetterAndRange asciiPlatform (u ''Amis-Jones'') =
                Inr \<lparr>letterFolder = [asciiUpper 97],
                     rangeFolder = [asciiUpper 97] @ fst b @ u ''-'' @ [asciiUpper 97] @ snd b\<rparr>"
    by (rule exI[of _ b], intro conjI b r r'[unfolded bb])
  show ?thesis
    by (rule conjI[OF h1 conjI[OF h2 conjI[OF h3 conjI[OF h4 conjI[OF h5 c]]]]])
qed

text \<open>
  C9: the edges of \<open>computeLetterAndRange\<close>. A canonical last name of one letter takes the
  default second letter a and the bucket a-i; a digit as second character fails both range
  tests and gives s-z; and a canonical last name that does not start with a letter (the
  empty one included) makes the function throw.
\<close>

theorem computeLetterAndRange_edges:
  "(filter (\<lambda>x. x \<noteq> 45) (canonicalKebab P lastN) = [c]
      \<and> 65 \<le> asciiUpper c \<and> asciiUpper c \<le> 90
    \<longrightarrow> computeLetterAndRange P lastN =
          Inr \<lparr>letterFolder = [asciiUpper c],
               rangeFolder = [asciiUpper c] @ u ''a'' @ u ''-'' @ [asciiUpper c] @ u ''i''\<rparr>)
   \<and> (filter (\<lambda>x. x \<noteq> 45) (canonicalKebab P lastN) = c # d # rest
      \<and> 65 \<le> asciiUpper c \<and> asciiUpper c \<le> 90 \<and> 48 \<le> d \<and> d \<le> 57
    \<longrightarrow> computeLetterAndRange P lastN =
          Inr \<lparr>letterFolder = [asciiUpper c],
               rangeFolder = [asciiUpper c] @ u ''s'' @ u ''-'' @ [asciiUpper c] @ u ''z''\<rparr>)
   \<and> (\<not> (\<exists>c rest. filter (\<lambda>x. x \<noteq> 45) (canonicalKebab P lastN) = c # rest
              \<and> 65 \<le> asciiUpper c \<and> asciiUpper c \<le> 90)
    \<longrightarrow> computeLetterAndRange P lastN = Inl (LastNameError lastN))"
proof (intro conjI impI)
  assume a: "filter (\<lambda>x. x \<noteq> 45) (canonicalKebab P lastN) = [c]
      \<and> 65 \<le> asciiUpper c \<and> asciiUpper c \<le> 90"
  then have "isLowerAlnum c" using clean_chars[of c P lastN] by simp
  with a have c: "97 \<le> c \<and> c \<le> 122" and up: "asciiUpper c = c - 32"
    by (auto simp: isLowerAlnum_def asciiUpper_def split: if_splits)
  show "computeLetterAndRange P lastN =
          Inr \<lparr>letterFolder = [asciiUpper c],
               rangeFolder = [asciiUpper c] @ u ''a'' @ u ''-'' @ [asciiUpper c] @ u ''i''\<rparr>"
    using compute_letter[OF _ c, of P lastN "[]"] a by (simp add: up bucketOf_def)
next
  assume a: "filter (\<lambda>x. x \<noteq> 45) (canonicalKebab P lastN) = c # d # rest
      \<and> 65 \<le> asciiUpper c \<and> asciiUpper c \<le> 90 \<and> 48 \<le> d \<and> d \<le> 57"
  then have "isLowerAlnum c" using clean_chars[of c P lastN] by simp
  with a have c: "97 \<le> c \<and> c \<le> 122" and up: "asciiUpper c = c - 32"
    by (auto simp: isLowerAlnum_def asciiUpper_def split: if_splits)
  show "computeLetterAndRange P lastN =
          Inr \<lparr>letterFolder = [asciiUpper c],
               rangeFolder = [asciiUpper c] @ u ''s'' @ u ''-'' @ [asciiUpper c] @ u ''z''\<rparr>"
    using compute_letter[OF _ c, of P lastN "d # rest"] a by (simp add: up bucketOf_def)
next
  assume a: "\<not> (\<exists>c rest. filter (\<lambda>x. x \<noteq> 45) (canonicalKebab P lastN) = c # rest
              \<and> 65 \<le> asciiUpper c \<and> asciiUpper c \<le> 90)"
  have "\<not> (\<exists>c rest. filter (\<lambda>c. c \<noteq> 45) (canonicalKebab P lastN) = c # rest \<and> 97 \<le> c \<and> c \<le> 122)"
  proof
    assume "\<exists>c rest. filter (\<lambda>c. c \<noteq> 45) (canonicalKebab P lastN) = c # rest \<and> 97 \<le> c \<and> c \<le> 122"
    then obtain c rest where "filter (\<lambda>c. c \<noteq> 45) (canonicalKebab P lastN) = c # rest"
      "97 \<le> c \<and> c \<le> 122" by blast
    then have "filter (\<lambda>x. x \<noteq> 45) (canonicalKebab P lastN) = c # rest
              \<and> 65 \<le> asciiUpper c \<and> asciiUpper c \<le> 90" by (auto simp: asciiUpper_def)
    with a show False by blast
  qed
  then show "computeLetterAndRange P lastN = Inl (LastNameError lastN)" by (rule compute_throws)
qed

theorem computeLetterAndRange_edges_witness:
  "computeLetterAndRange asciiPlatform (u ''S'')
     = Inr \<lparr>letterFolder = u ''S'', rangeFolder = u ''Sa-Si''\<rparr>
   \<and> computeLetterAndRange asciiPlatform (u ''S9'')
     = Inr \<lparr>letterFolder = u ''S'', rangeFolder = u ''Ss-Sz''\<rparr>
   \<and> computeLetterAndRange asciiPlatform (u ''-- ^'') = Inl (LastNameError (u ''-- ^''))
   \<and> computeLetterAndRange asciiPlatform (u ''9S'') = Inl (LastNameError (u ''9S''))"
proof -
  have h1: "filter (\<lambda>x. x \<noteq> 45) (canonicalKebab asciiPlatform (u ''S'')) = [115]
      \<and> 65 \<le> asciiUpper 115 \<and> asciiUpper 115 \<le> 90" by (simp add: kebab_eval)
  have h2: "filter (\<lambda>x. x \<noteq> 45) (canonicalKebab asciiPlatform (u ''S9'')) = 115 # 57 # []
      \<and> 65 \<le> asciiUpper 115 \<and> asciiUpper 115 \<le> 90 \<and> (48::nat) \<le> 57 \<and> (57::nat) \<le> 57" by (simp add: kebab_eval)
  have k3: "filter (\<lambda>x. x \<noteq> 45) (canonicalKebab asciiPlatform (u ''-- ^'')) = []" by (simp add: kebab_eval)
  have h3: "\<not> (\<exists>c rest. filter (\<lambda>x. x \<noteq> 45) (canonicalKebab asciiPlatform (u ''-- ^'')) = c # rest
              \<and> 65 \<le> asciiUpper c \<and> asciiUpper c \<le> 90)" unfolding k3 by simp
  have k4: "filter (\<lambda>x. x \<noteq> 45) (canonicalKebab asciiPlatform (u ''9S'')) = [57, 115]" by (simp add: kebab_eval)
  have h4: "\<not> (\<exists>c rest. filter (\<lambda>x. x \<noteq> 45) (canonicalKebab asciiPlatform (u ''9S'')) = c # rest
              \<and> 65 \<le> asciiUpper c \<and> asciiUpper c \<le> 90)" unfolding k4 by (simp add: asciiUpper_def)
  have a: "asciiUpper 115 = 83" by (simp add: asciiUpper_def)
  have r1: "computeLetterAndRange asciiPlatform (u ''S'')
     = Inr \<lparr>letterFolder = u ''S'', rangeFolder = u ''Sa-Si''\<rparr>"
    using computeLetterAndRange_edges[of asciiPlatform "u ''S''" 115 57 "[]",
        THEN conjunct1, THEN mp, OF h1]
    by (simp add: a)
  have r2: "computeLetterAndRange asciiPlatform (u ''S9'')
     = Inr \<lparr>letterFolder = u ''S'', rangeFolder = u ''Ss-Sz''\<rparr>"
    using computeLetterAndRange_edges[of asciiPlatform "u ''S9''" 115 57 "[]",
        THEN conjunct2, THEN conjunct1, THEN mp, OF h2]
    by (simp add: a)
  have r3: "computeLetterAndRange asciiPlatform (u ''-- ^'') = Inl (LastNameError (u ''-- ^''))"
    by (rule computeLetterAndRange_edges[of asciiPlatform "u ''-- ^''" 115 57 "[]",
        THEN conjunct2, THEN conjunct2, THEN mp, OF h3])
  have r4: "computeLetterAndRange asciiPlatform (u ''9S'') = Inl (LastNameError (u ''9S''))"
    by (rule computeLetterAndRange_edges[of asciiPlatform "u ''9S''" 115 57 "[]",
        THEN conjunct2, THEN conjunct2, THEN mp, OF h4])
  show ?thesis by (rule conjI[OF r1 conjI[OF r2 conjI[OF r3 r4]]])
qed

section \<open>The claims on the tier patterns\<close>

text \<open>
  C3: a candidate string matches the exact-tier pattern of \<open>buildExactRegex(last, first)\<close>
  if and only if, with its ASCII capitals lowered, it is the kebab form of the last name, a
  hyphen, the kebab form of the first name, a hyphen and exactly four decimal digits.
\<close>

theorem buildExactRegex_matches:
  "regexTest P (buildExactRegex P lastN firstN) cand \<longleftrightarrow>
     (\<exists>ds. length ds = 4 \<and> (\<forall>d\<in>set ds. 48 \<le> d \<and> d \<le> 57)
        \<and> map asciiLower cand
            = canonicalKebab P lastN @ u ''-'' @ canonicalKebab P firstN @ u ''-'' @ ds)"
proof
  assume "regexTest P (buildExactRegex P lastN firstN) cand"
  then have "rmatch P (buildExactRegex P lastN firstN) cand" by (simp add: regexTest_def)
  then obtain a1 a2 a3 a4 ds where d: "cand = a1 @ a2 @ a3 @ a4 @ ds"
    "map asciiLower a1 = canonicalKebab P lastN" "map asciiLower a2 = [45]"
    "map asciiLower a3 = canonicalKebab P firstN" "map asciiLower a4 = [45]"
    "length ds = 4" "\<forall>d\<in>set ds. 48 \<le> d \<and> d \<le> 57"
    by (rule exact_matchD)
  have "map asciiLower ds = ds" using d(7) by (rule lower_digits)
  then have "map asciiLower cand
      = canonicalKebab P lastN @ u ''-'' @ canonicalKebab P firstN @ u ''-'' @ ds"
    by (simp add: d(1-5))
  with d(6,7) show "\<exists>ds. length ds = 4 \<and> (\<forall>d\<in>set ds. 48 \<le> d \<and> d \<le> 57)
        \<and> map asciiLower cand
            = canonicalKebab P lastN @ u ''-'' @ canonicalKebab P firstN @ u ''-'' @ ds"
    by (intro exI[of _ ds]) simp
next
  assume "\<exists>ds. length ds = 4 \<and> (\<forall>d\<in>set ds. 48 \<le> d \<and> d \<le> 57)
        \<and> map asciiLower cand
            = canonicalKebab P lastN @ u ''-'' @ canonicalKebab P firstN @ u ''-'' @ ds"
  then obtain ds where ds: "length ds = 4 \<and> (\<forall>d\<in>set ds. 48 \<le> d \<and> d \<le> 57)
        \<and> map asciiLower cand
            = canonicalKebab P lastN @ u ''-'' @ canonicalKebab P firstN @ u ''-'' @ ds" ..
  then have e: "map asciiLower cand
            = canonicalKebab P lastN @ ([45] @ (canonicalKebab P firstN @ ([45] @ ds)))" by simp
  from e[unfolded map_eq_append_conv] obtain a1 b1 where
    1: "cand = a1 @ b1" "canonicalKebab P lastN = map asciiLower a1"
       "[45] @ (canonicalKebab P firstN @ ([45] @ ds)) = map asciiLower b1" by metis
  from 1(3)[symmetric, unfolded map_eq_append_conv] obtain a2 b2 where
    2: "b1 = a2 @ b2" "[45] = map asciiLower a2"
       "canonicalKebab P firstN @ ([45] @ ds) = map asciiLower b2" by metis
  from 2(3)[symmetric, unfolded map_eq_append_conv] obtain a3 b3 where
    3: "b2 = a3 @ b3" "canonicalKebab P firstN = map asciiLower a3"
       "[45] @ ds = map asciiLower b3" by metis
  from 3(3)[symmetric, unfolded map_eq_append_conv] obtain a4 b4 where
    4: "b3 = a4 @ b4" "[45] = map asciiLower a4" "ds = map asciiLower b4" by metis
  have "\<forall>d\<in>set (map asciiLower b4). 48 \<le> d \<and> d \<le> 57" using ds 4(3) by simp
  then have b4: "map asciiLower b4 = b4" by (rule digits_lower)
  then have m5: "rmatch P digits4 b4" using ds 4(3) by (simp add: rmatch_digits4)
  have m4: "rmatch P (lits [45] @ digits4) (a4 @ b4)"
    by (rule rmatch_litsI[OF hyphen_kebabChar 4(2)[symmetric] m5])
  have m3: "rmatch P (lits (canonicalKebab P firstN) @ lits [45] @ digits4) (a3 @ a4 @ b4)"
    by (rule rmatch_litsI[OF canonicalKebab_kebabChar 3(2)[symmetric] m4])
  have m2: "rmatch P (lits [45] @ lits (canonicalKebab P firstN) @ lits [45] @ digits4)
      (a2 @ a3 @ a4 @ b4)"
    by (rule rmatch_litsI[OF hyphen_kebabChar 2(2)[symmetric] m3])
  have "rmatch P (lits (canonicalKebab P lastN) @ lits [45]
      @ lits (canonicalKebab P firstN) @ lits [45] @ digits4) (a1 @ a2 @ a3 @ a4 @ b4)"
    by (rule rmatch_litsI[OF canonicalKebab_kebabChar 1(2)[symmetric] m2])
  then show "regexTest P (buildExactRegex P lastN firstN) cand"
    by (simp add: regexTest_def exact_shape 1(1) 2(1) 3(1) 4(1))
qed

theorem buildExactRegex_matches_witness:
  "length (u ''0042'') = 4
   \<and> list_all (\<lambda>d. 48 \<le> d \<and> d \<le> 57) (u ''0042'')
   \<and> map asciiLower (u ''SMITH-john-0042'')
       = canonicalKebab asciiPlatform (u ''Smith'') @ u ''-''
           @ canonicalKebab asciiPlatform (u ''John'') @ u ''-'' @ u ''0042''
   \<and> regexTest asciiPlatform (buildExactRegex asciiPlatform (u ''Smith'') (u ''John''))
        (u ''SMITH-john-0042'')
   \<and> length (u ''42'') \<noteq> 4
   \<and> map asciiLower (u ''SMITH-john-42'')
       = canonicalKebab asciiPlatform (u ''Smith'') @ u ''-''
           @ canonicalKebab asciiPlatform (u ''John'') @ u ''-'' @ u ''42''
   \<and> \<not> regexTest asciiPlatform (buildExactRegex asciiPlatform (u ''Smith'') (u ''John''))
        (u ''SMITH-john-42'')"
proof -
  have l: "length (u ''0042'') = 4" by simp
  have d: "list_all (\<lambda>d. 48 \<le> d \<and> d \<le> 57) (u ''0042'')" by simp
  have e: "map asciiLower (u ''SMITH-john-0042'')
       = canonicalKebab asciiPlatform (u ''Smith'') @ u ''-''
           @ canonicalKebab asciiPlatform (u ''John'') @ u ''-'' @ u ''0042''"
    by (simp add: kebab_eval)
  have r: "\<exists>ds. length ds = 4 \<and> (\<forall>d\<in>set ds. 48 \<le> d \<and> d \<le> 57)
        \<and> map asciiLower (u ''SMITH-john-0042'')
            = canonicalKebab asciiPlatform (u ''Smith'') @ u ''-''
                @ canonicalKebab asciiPlatform (u ''John'') @ u ''-'' @ ds"
    by (rule exI[of _ "u ''0042''"]) (simp add: kebab_eval)
  have m: "regexTest asciiPlatform (buildExactRegex asciiPlatform (u ''Smith'') (u ''John''))
        (u ''SMITH-john-0042'')"
    by (rule buildExactRegex_matches[THEN iffD2, OF r])
  have l': "length (u ''42'') \<noteq> 4" by simp
  have e': "map asciiLower (u ''SMITH-john-42'')
       = canonicalKebab asciiPlatform (u ''Smith'') @ u ''-''
           @ canonicalKebab asciiPlatform (u ''John'') @ u ''-'' @ u ''42''"
    by (simp add: kebab_eval)
  have n: "\<not> regexTest asciiPlatform (buildExactRegex asciiPlatform (u ''Smith'') (u ''John''))
        (u ''SMITH-john-42'')"
  proof
    assume "regexTest asciiPlatform (buildExactRegex asciiPlatform (u ''Smith'') (u ''John''))
        (u ''SMITH-john-42'')"
    from buildExactRegex_matches[THEN iffD1, OF this] obtain ds where
      ds: "length ds = 4" "map asciiLower (u ''SMITH-john-42'')
            = canonicalKebab asciiPlatform (u ''Smith'') @ u ''-''
                @ canonicalKebab asciiPlatform (u ''John'') @ u ''-'' @ ds"
      by (elim exE conjE)
    from ds(2) have "length (map asciiLower (u ''SMITH-john-42''))
        = length (canonicalKebab asciiPlatform (u ''Smith'') @ u ''-''
                @ canonicalKebab asciiPlatform (u ''John'') @ u ''-'' @ ds)" by (rule arg_cong)
    with ds(1) show False by (simp add: kebab_eval)
  qed
  show ?thesis
    by (rule conjI[OF l conjI[OF d conjI[OF e conjI[OF m conjI[OF l' conjI[OF e' n]]]]]])
qed

text \<open>
  C4: the tiers are ordered by decreasing specificity. When the kebab forms of the first and
  the last name are not empty, a string that matches the exact pattern also matches the
  pattern of last name and first initial, the last-name pattern and the first-letter pattern.
\<close>

theorem tiers_decreasing_specificity:
  assumes "canonicalKebab P lastN \<noteq> []" and "canonicalKebab P firstN \<noteq> []"
    and "regexTest P (buildExactRegex P lastN firstN) s"
  shows "regexTest P (buildLastPlusFirstInitialRegex P lastN firstN) s
       \<and> regexTest P (buildLastOnlyRegex P lastN) s
       \<and> regexTest P (buildFirstLetterRegex P lastN) s"
proof -
  let ?A = "canonicalKebab P lastN" and ?B = "canonicalKebab P firstN"
  from assms(3) have "rmatch P (buildExactRegex P lastN firstN) s" by (simp add: regexTest_def)
  then obtain a1 a2 a3 a4 ds where d: "s = a1 @ a2 @ a3 @ a4 @ ds"
    "map asciiLower a1 = ?A" "map asciiLower a2 = [45]"
    "map asciiLower a3 = ?B" "map asciiLower a4 = [45]"
    "length ds = 4" "\<forall>d\<in>set ds. 48 \<le> d \<and> d \<le> 57"
    by (rule exact_matchD)
  have kA: "\<forall>c\<in>set ?A. kebabChar c" and kB: "\<forall>c\<in>set ?B. kebabChar c"
    by (rule canonicalKebab_kebabChar)+
  have c1: "\<forall>c\<in>set a1. csetMatch P AlnumHyphen c" by (rule lowered_AlnumHyphen[OF kA d(2)])
  have c2: "\<forall>c\<in>set a2. csetMatch P AlnumHyphen c"
    by (rule lowered_AlnumHyphen[OF hyphen_kebabChar d(3)])
  have c3: "\<forall>c\<in>set a3. csetMatch P AlnumHyphen c" by (rule lowered_AlnumHyphen[OF kB d(4)])
  have n1: "a1 \<noteq> []" using assms(1) d(2) by auto
  have n3: "a3 \<noteq> []" using assms(2) d(4) by auto
  obtain y1 r1 where a1: "a1 = y1 # r1" using n1 by (cases a1) auto
  obtain y3 r3 where a3: "a3 = y3 # r3" using n3 by (cases a3) auto
  have t1: "take 1 ?A = map asciiLower [y1]" using d(2)[symmetric] a1 by simp
  have t3: "take 1 ?B = map asciiLower [y3]" using d(4)[symmetric] a3 by simp
  have k1: "\<forall>c\<in>set (take 1 ?A). kebabChar c" using kA by (meson in_set_takeD)
  have k3: "\<forall>c\<in>set (take 1 ?B). kebabChar c" using kB by (meson in_set_takeD)
  have m5: "rmatch P digits4 ds" using d(6,7) by (simp add: rmatch_digits4)
  have m4: "rmatch P (lits [45] @ digits4) (a4 @ ds)"
    by (rule rmatch_litsI[OF hyphen_kebabChar d(5) m5])
  \<comment> \<open>tier 2\<close>
  have "\<forall>c\<in>set r3. csetMatch P AlnumHyphen c" using c3 a3 by simp
  then have s2: "rmatch P ((AlnumHyphen, Star) # lits [45] @ digits4) (r3 @ a4 @ ds)"
    using m4 by (rule rmatch_star)
  have i2: "rmatch P (lits (take 1 ?B) @ (AlnumHyphen, Star) # lits [45] @ digits4)
      ([y3] @ r3 @ a4 @ ds)"
    by (rule rmatch_litsI[OF k3 t3[symmetric] s2])
  have h2: "rmatch P (lits [45] @ lits (take 1 ?B) @ (AlnumHyphen, Star) # lits [45] @ digits4)
      (a2 @ [y3] @ r3 @ a4 @ ds)"
    by (rule rmatch_litsI[OF hyphen_kebabChar d(3) i2])
  have "rmatch P (lits ?A @ lits [45] @ lits (take 1 ?B) @ (AlnumHyphen, Star) # lits [45] @ digits4)
      (a1 @ a2 @ [y3] @ r3 @ a4 @ ds)"
    by (rule rmatch_litsI[OF kA d(2) h2])
  then have T2: "regexTest P (buildLastPlusFirstInitialRegex P lastN firstN) s"
    by (simp add: regexTest_def initial_shape d(1) a3)
  \<comment> \<open>tier 3\<close>
  have p3: "rmatch P ((AlnumHyphen, Plus) # lits [45] @ digits4) (a3 @ a4 @ ds)"
    using n3 c3 m4 by (rule rmatch_plus)
  have h3: "rmatch P (lits [45] @ (AlnumHyphen, Plus) # lits [45] @ digits4) (a2 @ a3 @ a4 @ ds)"
    by (rule rmatch_litsI[OF hyphen_kebabChar d(3) p3])
  have "rmatch P (lits ?A @ lits [45] @ (AlnumHyphen, Plus) # lits [45] @ digits4)
      (a1 @ a2 @ a3 @ a4 @ ds)"
    by (rule rmatch_litsI[OF kA d(2) h3])
  then have T3: "regexTest P (buildLastOnlyRegex P lastN) s"
    by (simp add: regexTest_def lastOnly_shape d(1))
  \<comment> \<open>tier 4\<close>
  have "\<forall>c\<in>set (r1 @ a2 @ a3). csetMatch P AlnumHyphen c" using c1 c2 c3 a1 by auto
  then have s4: "rmatch P ((AlnumHyphen, Star) # lits [45] @ digits4) ((r1 @ a2 @ a3) @ a4 @ ds)"
    using m4 by (rule rmatch_star)
  have "rmatch P (lits (take 1 ?A) @ (AlnumHyphen, Star) # lits [45] @ digits4)
      ([y1] @ (r1 @ a2 @ a3) @ a4 @ ds)"
    by (rule rmatch_litsI[OF k1 t1[symmetric] s4])
  then have T4: "regexTest P (buildFirstLetterRegex P lastN) s"
    by (simp add: regexTest_def firstLetter_shape d(1) a1)
  from T2 T3 T4 show ?thesis by (intro conjI)
qed

theorem tiers_decreasing_specificity_witness:
  "canonicalKebab asciiPlatform (u ''Smith'') \<noteq> []
   \<and> canonicalKebab asciiPlatform (u ''John'') \<noteq> []
   \<and> regexTest asciiPlatform (buildExactRegex asciiPlatform (u ''Smith'') (u ''John''))
        (u ''SMITH-john-0042'')
   \<and> (regexTest asciiPlatform (buildLastPlusFirstInitialRegex asciiPlatform (u ''Smith'') (u ''John''))
        (u ''SMITH-john-0042'')
      \<and> regexTest asciiPlatform (buildLastOnlyRegex asciiPlatform (u ''Smith'')) (u ''SMITH-john-0042'')
      \<and> regexTest asciiPlatform (buildFirstLetterRegex asciiPlatform (u ''Smith''))
          (u ''SMITH-john-0042''))"
proof -
  have h1: "canonicalKebab asciiPlatform (u ''Smith'') \<noteq> []" by (simp add: kebab_eval)
  have h2: "canonicalKebab asciiPlatform (u ''John'') \<noteq> []" by (simp add: kebab_eval)
  have h3: "regexTest asciiPlatform (buildExactRegex asciiPlatform (u ''Smith'') (u ''John''))
        (u ''SMITH-john-0042'')"
    by (simp add: kebab_eval regex_eval)
  show ?thesis
    by (rule conjI[OF h1 conjI[OF h2 conjI[OF h3 tiers_decreasing_specificity[OF h1 h2 h3]]]])
qed

section \<open>The claim on idempotence\<close>

text \<open>
  C7, as stated, asks that \<open>sanitizeName\<close> and \<open>canonicalKebab\<close> are idempotent on
  every string. \<open>sanitizeName\<close> is not: removing a diacritic can bring two combining marks
  together that NFD then has to reorder. On the string U+0F40 U+0F72 \<open>^\<close> U+0F71 the first
  pass removes the circumflex (a character with the property Diacritic) and the second pass
  swaps the two vowel signs.
\<close>

theorem sanitizeName_not_idempotent:
  "sanitizeName tibetanPlatform (sanitizeName tibetanPlatform [3904, 3954, 94, 3953])
     \<noteq> sanitizeName tibetanPlatform [3904, 3954, 94, 3953]"
proof -
  have 1: "sanitizeName tibetanPlatform [3904, 3954, 94, 3953] = [3904, 3954, 3953]"
    by (simp add: sanitize_eval tibetan_eval kebab_eval)
  have 2: "sanitizeName tibetanPlatform [3904, 3954, 3953] = [3904, 3953, 3954]"
    by (simp add: sanitize_eval tibetan_eval kebab_eval)
  show ?thesis unfolding 1 2 by simp
qed

text \<open>
  C7, amended: \<open>canonicalKebab\<close> is idempotent on every string, for every platform;
  \<open>sanitizeName\<close> is idempotent on every string whose sanitized form is left unchanged by
  lower-casing, NFD and diacritic stripping, and in particular on every ASCII string.
\<close>

theorem normalisation_idempotent:
  "canonicalKebab P (canonicalKebab P s) = canonicalKebab P s
   \<and> (stripDiacritics P (normalizeNFD P (toLowerCase P (sanitizeName P s))) = sanitizeName P s
       \<longrightarrow> sanitizeName P (sanitizeName P s) = sanitizeName P s)
   \<and> (isAscii s \<longrightarrow> sanitizeName P (sanitizeName P s) = sanitizeName P s)"
proof (intro conjI impI)
  show "canonicalKebab P (canonicalKebab P s) = canonicalKebab P s"
    by (rule canonicalKebab_idem)
next
  assume "stripDiacritics P (normalizeNFD P (toLowerCase P (sanitizeName P s))) = sanitizeName P s"
  then show "sanitizeName P (sanitizeName P s) = sanitizeName P s" by (rule sanitizeName_fixed)
next
  assume "isAscii s"
  then show "sanitizeName P (sanitizeName P s) = sanitizeName P s" by (rule sanitizeName_ascii_idem)
qed

theorem normalisation_idempotent_witness:
  "isAscii (u ''  Jean-Luc   PICARD_x ^ '')
   \<and> sanitizeName asciiPlatform (u ''  Jean-Luc   PICARD_x ^ '') = u ''jean luc picard x''
   \<and> stripDiacritics asciiPlatform (normalizeNFD asciiPlatform (toLowerCase asciiPlatform
         (sanitizeName asciiPlatform (u ''  Jean-Luc   PICARD_x ^ ''))))
       = sanitizeName asciiPlatform (u ''  Jean-Luc   PICARD_x ^ '')
   \<and> sanitizeName asciiPlatform (sanitizeName asciiPlatform (u ''  Jean-Luc   PICARD_x ^ ''))
       = sanitizeName asciiPlatform (u ''  Jean-Luc   PICARD_x ^ '')
   \<and> canonicalKebab asciiPlatform (canonicalKebab asciiPlatform (u ''  Jean-Luc   PICARD_x ^ ''))
       = canonicalKebab asciiPlatform (u ''  Jean-Luc   PICARD_x ^ '')"
proof -
  have h1: "isAscii (u ''  Jean-Luc   PICARD_x ^ '')" by (simp add: isAscii_def)
  have v: "sanitizeName asciiPlatform (u ''  Jean-Luc   PICARD_x ^ '') = u ''jean luc picard x''"
    by (simp add: sanitize_eval kebab_eval)
  have h2: "stripDiacritics asciiPlatform (normalizeNFD asciiPlatform (toLowerCase asciiPlatform
         (sanitizeName asciiPlatform (u ''  Jean-Luc   PICARD_x ^ ''))))
       = sanitizeName asciiPlatform (u ''  Jean-Luc   PICARD_x ^ '')"
    unfolding v by (simp add: kebab_eval)
  note t = normalisation_idempotent[of asciiPlatform "u ''  Jean-Luc   PICARD_x ^ ''"]
  have r1: "sanitizeName asciiPlatform (sanitizeName asciiPlatform (u ''  Jean-Luc   PICARD_x ^ ''))
       = sanitizeName asciiPlatform (u ''  Jean-Luc   PICARD_x ^ '')"
    by (rule t[THEN conjunct2, THEN conjunct1, THEN mp, OF h2])
  have r1': "sanitizeName asciiPlatform (sanitizeName asciiPlatform (u ''  Jean-Luc   PICARD_x ^ ''))
       = sanitizeName asciiPlatform (u ''  Jean-Luc   PICARD_x ^ '')"
    by (rule t[THEN conjunct2, THEN conjunct2, THEN mp, OF h1])
  have r2: "canonicalKebab asciiPlatform (canonicalKebab asciiPlatform (u ''  Jean-Luc   PICARD_x ^ ''))
       = canonicalKebab asciiPlatform (u ''  Jean-Luc   PICARD_x ^ '')"
    by (rule t[THEN conjunct1])
  show ?thesis by (rule conjI[OF h1 conjI[OF v conjI[OF h2 conjI[OF r1' r2]]]])
qed

section \<open>The claims on the loop over the queries\<close>

text \<open>
  C1, as stated, asks that a success at any of the four tiers gives the entry
  \<open>found = true\<close> and an extracted reference. On the demo page the query John Smith
  misses the exact tier and succeeds at the tier of last name and first initial: the card
  is clicked, and the entry still has \<open>found = false\<close> and no reference.
\<close>

theorem fallback_match_leaves_found_false:
  "clickFirstRegex demoBrowser asciiPlatform
     (buildLastPlusFirstInitialRegex asciiPlatform (u ''smith'') (u ''john'')) (Node 7) 2000
     \<lparr>clock = 3500, ready = True, clicked = []\<rparr>
   = Some (Inr True, \<lparr>clock = 8500, ready = True, clicked = [Node 8]\<rparr>)
   \<and> peopleCardFinder demoBrowser asciiPlatform [u ''John Smith''] demoStart
   = Some (Some [\<lparr>name = u ''John Smith'', found = False, headshotImgString = JNull\<rparr>],
           \<lparr>clock = 8500, ready = True, clicked = [Node 8]\<rparr>)"
  by (rule conjI[OF demo_initial_john demo_run_john])

text \<open>
  C1, amended: for a query whose name parses and whose folder path expands, the entry has
  \<open>found = true\<close> exactly when the exact tier succeeds (a node matching the exact pattern
  is found and its span clicked). When the exact tier does not succeed, the first of the
  three fallback tiers that succeeds clicks the first node matching its pattern and ends the
  query there, and the entry keeps \<open>found = false\<close> and \<open>headshotImgString = null\<close>. What
  is extracted after an exact match is not part of this statement.
\<close>

theorem found_iff_exact_tier:
  assumes "clockAdvances B"
    and "parsePersonName P n = Inr pn"
    and "computeLetterAndRange P (last_n pn) = Inr f"
    and "expandPath B P (BASE_PATH @ [letterFolder f, rangeFolder f]) Document w
           = Some (Inr searchRoot, w1)"
    and "clickFirstRegex B P (buildExactRegex P (last_n pn) (first_n pn)) searchRoot 3000 w1
           = Some (r1, w2)"
  shows "(\<exists>p' w'. processPerson B P \<lparr>name = n, found = False, headshotImgString = JNull\<rparr> w
                    = Some (p', w')
            \<and> name p' = n \<and> (found p' \<longleftrightarrow> r1 = Inr True))
       \<and> (r1 \<noteq> Inr True
           \<and> clickFirstRegex B P (buildLastPlusFirstInitialRegex P (last_n pn) (first_n pn))
                searchRoot 2000 w2 = Some (Inr True, w3)
          \<longrightarrow> processPerson B P \<lparr>name = n, found = False, headshotImgString = JNull\<rparr> w
                = Some (\<lparr>name = n, found = False, headshotImgString = JNull\<rparr>, w3)
              \<and> (\<exists>wm node rest.
                    findNodesByRegex B P wm
                      (buildLastPlusFirstInitialRegex P (last_n pn) (first_n pn)) searchRoot
                      = node # rest
                    \<and> w3 = countdown0 B (clickSpan B node wm)))
       \<and> (r1 \<noteq> Inr True
           \<and> clickFirstRegex B P (buildLastPlusFirstInitialRegex P (last_n pn) (first_n pn))
                searchRoot 2000 w2 = Some (r2, w3) \<and> r2 \<noteq> Inr True
           \<and> clickFirstRegex B P (buildLastOnlyRegex P (last_n pn)) searchRoot 2000 w3
                = Some (Inr True, w4)
          \<longrightarrow> processPerson B P \<lparr>name = n, found = False, headshotImgString = JNull\<rparr> w
                = Some (\<lparr>name = n, found = False, headshotImgString = JNull\<rparr>, w4)
              \<and> (\<exists>wm node rest.
                    findNodesByRegex B P wm (buildLastOnlyRegex P (last_n pn)) searchRoot
                      = node # rest
                    \<and> w4 = countdown0 B (clickSpan B node wm)))
       \<and> (r1 \<noteq> Inr True
           \<and> clickFirstRegex B P (buildLastPlusFirstInitialRegex P (last_n pn) (first_n pn))
                searchRoot 2000 w2 = Some (r2, w3) \<and> r2 \<noteq> Inr True
           \<and> clickFirstRegex B P (buildLastOnlyRegex P (last_n pn)) searchRoot 2000 w3
                = Some (r3, w4) \<and> r3 \<noteq> Inr True
           \<and> clickFirstRegex B P (buildFirstLetterRegex P (last_n pn)) searchRoot 2000 w4
                = Some (Inr True, w5)
          \<longrightarrow> processPerson B P \<lparr>name = n, found = False, headshotImgString = JNull\<rparr> w
                = Some (\<lparr>name = n, found = False, headshotImgString = JNull\<rparr>, w5)
              \<and> (\<exists>wm node rest.
                    findNodesByRegex B P wm (buildFirstLetterRegex P (last_n pn)) searchRoot
                      = node # rest
                    \<and> w5 = countdown0 B (clickSpan B node wm)))"
proof (intro conjI impI)
  let ?p = "\<lparr>name = n, found = False, headshotImgString = JNull\<rparr>"
  have pn: "parsePersonName P (name ?p) = Inr pn" using assms(2) by simp
  from tryBody_exact[OF assms(1) pn assms(3-5)] obtain p' w' where
    t: "tryBody B P ?p w = Some (Inr (), p', w')" "name p' = name ?p"
       "found p' \<longleftrightarrow> found ?p \<or> r1 = Inr True"
    by (elim exE conjE)
  have "processPerson B P ?p w = Some (p', w')" using t(1) by (simp add: processPerson_def)
  moreover have "name p' = n" using t(2) by simp
  moreover have "found p' \<longleftrightarrow> r1 = Inr True" using t(3) by simp
  ultimately show "\<exists>p' w'. processPerson B P ?p w = Some (p', w')
            \<and> name p' = n \<and> (found p' \<longleftrightarrow> r1 = Inr True)"
    by (intro exI[of _ p'] exI[of _ w'] conjI)
next
  let ?p = "\<lparr>name = n, found = False, headshotImgString = JNull\<rparr>"
  have pn: "parsePersonName P (name ?p) = Inr pn" using assms(2) by simp
  assume a: "r1 \<noteq> Inr True
           \<and> clickFirstRegex B P (buildLastPlusFirstInitialRegex P (last_n pn) (first_n pn))
                searchRoot 2000 w2 = Some (Inr True, w3)"
  then have n1: "r1 \<noteq> Inr True" and c2: "clickFirstRegex B P
      (buildLastPlusFirstInitialRegex P (last_n pn) (first_n pn)) searchRoot 2000 w2
      = Some (Inr True, w3)" by simp_all
  show "processPerson B P ?p w = Some (?p, w3)"
    by (rule tryBody_fallbacks[OF pn assms(3-5) n1 fallbacks_first[OF c2]])
  show "\<exists>wm node rest.
          findNodesByRegex B P wm (buildLastPlusFirstInitialRegex P (last_n pn) (first_n pn))
            searchRoot = node # rest
          \<and> w3 = countdown0 B (clickSpan B node wm)"
    by (rule clickFirstRegex_clicked[OF c2])
next
  let ?p = "\<lparr>name = n, found = False, headshotImgString = JNull\<rparr>"
  have pn: "parsePersonName P (name ?p) = Inr pn" using assms(2) by simp
  assume a: "r1 \<noteq> Inr True
           \<and> clickFirstRegex B P (buildLastPlusFirstInitialRegex P (last_n pn) (first_n pn))
                searchRoot 2000 w2 = Some (r2, w3) \<and> r2 \<noteq> Inr True
           \<and> clickFirstRegex B P (buildLastOnlyRegex P (last_n pn)) searchRoot 2000 w3
                = Some (Inr True, w4)"
  then have n1: "r1 \<noteq> Inr True" and c2: "clickFirstRegex B P
      (buildLastPlusFirstInitialRegex P (last_n pn) (first_n pn)) searchRoot 2000 w2
      = Some (r2, w3)" and n2: "r2 \<noteq> Inr True"
    and c3: "clickFirstRegex B P (buildLastOnlyRegex P (last_n pn)) searchRoot 2000 w3
      = Some (Inr True, w4)" by simp_all
  show "processPerson B P ?p w = Some (?p, w4)"
    by (rule tryBody_fallbacks[OF pn assms(3-5) n1 fallbacks_second[OF c2 n2 c3]])
  show "\<exists>wm node rest.
          findNodesByRegex B P wm (buildLastOnlyRegex P (last_n pn)) searchRoot = node # rest
          \<and> w4 = countdown0 B (clickSpan B node wm)"
    by (rule clickFirstRegex_clicked[OF c3])
next
  let ?p = "\<lparr>name = n, found = False, headshotImgString = JNull\<rparr>"
  have pn: "parsePersonName P (name ?p) = Inr pn" using assms(2) by simp
  assume a: "r1 \<noteq> Inr True
           \<and> clickFirstRegex B P (buildLastPlusFirstInitialRegex P (last_n pn) (first_n pn))
                searchRoot 2000 w2 = Some (r2, w3) \<and> r2 \<noteq> Inr True
           \<and> clickFirstRegex B P (buildLastOnlyRegex P (last_n pn)) searchRoot 2000 w3
                = Some (r3, w4) \<and> r3 \<noteq> Inr True
           \<and> clickFirstRegex B P (buildFirstLetterRegex P (last_n pn)) searchRoot 2000 w4
                = Some (Inr True, w5)"
  then have n1: "r1 \<noteq> Inr True" and c2: "clickFirstRegex B P
      (buildLastPlusFirstInitialRegex P (last_n pn) (first_n pn)) searchRoot 2000 w2
      = Some (r2, w3)" and n2: "r2 \<noteq> Inr True"
    and c3: "clickFirstRegex B P (buildLastOnlyRegex P (last_n pn)) searchRoot 2000 w3
      = Some (r3, w4)" and n3: "r3 \<noteq> Inr True"
    and c4: "clickFirstRegex B P (buildFirstLetterRegex P (last_n pn)) searchRoot 2000 w4
      = Some (Inr True, w5)" by simp_all
  show "processPerson B P ?p w = Some (?p, w5)"
    by (rule tryBody_fallbacks[OF pn assms(3-5) n1 fallbacks_third[OF c2 n2 c3 n3 c4]])
  show "\<exists>wm node rest.
          findNodesByRegex B P wm (buildFirstLetterRegex P (last_n pn)) searchRoot = node # rest
          \<and> w5 = countdown0 B (clickSpan B node wm)"
    by (rule clickFirstRegex_clicked[OF c4])
qed

theorem found_iff_exact_tier_witness:
  "clockAdvances demoBrowser
   \<and> clickFirstRegex demoBrowser asciiPlatform
         (buildExactRegex asciiPlatform (u ''smith'') (u ''jane'')) (Node 7) 3000 demoStart
       = Some (Inr True, \<lparr>clock = 5000, ready = True, clicked = [Node 8]\<rparr>)
   \<and> (\<exists>p' w'. processPerson demoBrowser asciiPlatform
                   \<lparr>name = u ''Jane Smith'', found = False, headshotImgString = JNull\<rparr> demoStart
                 = Some (p', w')
         \<and> name p' = u ''Jane Smith'' \<and> found p')
   \<and> clickFirstRegex demoBrowser asciiPlatform
         (buildLastPlusFirstInitialRegex asciiPlatform (u ''smith'') (u ''john'')) (Node 7) 2000
         \<lparr>clock = 3500, ready = True, clicked = []\<rparr>
       = Some (Inr True, \<lparr>clock = 8500, ready = True, clicked = [Node 8]\<rparr>)
   \<and> processPerson demoBrowser asciiPlatform
         \<lparr>name = u ''John Smith'', found = False, headshotImgString = JNull\<rparr> demoStart
       = Some (\<lparr>name = u ''John Smith'', found = False, headshotImgString = JNull\<rparr>,
               \<lparr>clock = 8500, ready = True, clicked = [Node 8]\<rparr>)
   \<and> clickFirstRegex demoBrowser asciiPlatform
         (buildLastOnlyRegex asciiPlatform (u ''smith'')) (Node 7) 2000
         \<lparr>clock = 6000, ready = True, clicked = []\<rparr>
       = Some (Inr True, \<lparr>clock = 11000, ready = True, clicked = [Node 8]\<rparr>)
   \<and> processPerson demoBrowser asciiPlatform
         \<lparr>name = u ''Bob Smith'', found = False, headshotImgString = JNull\<rparr> demoStart
       = Some (\<lparr>name = u ''Bob Smith'', found = False, headshotImgString = JNull\<rparr>,
               \<lparr>clock = 11000, ready = True, clicked = [Node 8]\<rparr>)
   \<and> clickFirstRegex demoBrowser asciiPlatform
         (buildFirstLetterRegex asciiPlatform (u ''snow'')) (Node 7) 2000
         \<lparr>clock = 8500, ready = True, clicked = []\<rparr>
       = Some (Inr True, \<lparr>clock = 13500, ready = True, clicked = [Node 8]\<rparr>)
   \<and> processPerson demoBrowser asciiPlatform
         \<lparr>name = u ''Ann Snow'', found = False, headshotImgString = JNull\<rparr> demoStart
       = Some (\<lparr>name = u ''Ann Snow'', found = False, headshotImgString = JNull\<rparr>,
               \<lparr>clock = 13500, ready = True, clicked = [Node 8]\<rparr>)"
proof -
  let ?jane = "\<lparr>first_n = u ''jane'', last_n = u ''smith''\<rparr>"
  let ?john = "\<lparr>first_n = u ''john'', last_n = u ''smith''\<rparr>"
  let ?bob = "\<lparr>first_n = u ''bob'', last_n = u ''smith''\<rparr>"
  let ?ann = "\<lparr>first_n = u ''ann'', last_n = u ''snow''\<rparr>"
  let ?f = "\<lparr>letterFolder = u ''S'', rangeFolder = u ''Sj-Sr''\<rparr>"
  have h1: "clockAdvances demoBrowser" by (rule demo_clock)
  have f: "computeLetterAndRange asciiPlatform (last_n ?jane) = Inr ?f"
    "computeLetterAndRange asciiPlatform (last_n ?john) = Inr ?f"
    "computeLetterAndRange asciiPlatform (last_n ?bob) = Inr ?f"
    "computeLetterAndRange asciiPlatform (last_n ?ann) = Inr ?f"
    using demo_folders(1) demo_folders_more by simp_all
  have x: "expandPath demoBrowser asciiPlatform (BASE_PATH @ [letterFolder ?f, rangeFolder ?f])
      Document demoStart = Some (Inr (Node 7), demoStart)"
    using demo_expand(1)[of demoStart] by simp
  have n: "(Inl Timeout :: error + bool) \<noteq> Inr True" by simp
  \<comment> \<open>Jane Smith: the exact tier\<close>
  have e1: "clickFirstRegex demoBrowser asciiPlatform
         (buildExactRegex asciiPlatform (last_n ?jane) (first_n ?jane)) (Node 7) 3000 demoStart
       = Some (Inr True, \<lparr>clock = 5000, ready = True, clicked = [Node 8]\<rparr>)"
    using demo_exact_jane by simp
  from found_iff_exact_tier[OF h1 demo_parse(1) f(1) x e1, THEN conjunct1] obtain p w' where
    p: "processPerson demoBrowser asciiPlatform
          \<lparr>name = u ''Jane Smith'', found = False, headshotImgString = JNull\<rparr> demoStart
        = Some (p, w')" "name p = u ''Jane Smith''"
       "found p \<longleftrightarrow> (Inr True :: error + bool) = Inr True"
    by (elim exE conjE)
  have fp: "found p" using p(3) by simp
  have cj: "\<exists>p' w'. processPerson demoBrowser asciiPlatform
                   \<lparr>name = u ''Jane Smith'', found = False, headshotImgString = JNull\<rparr> demoStart
                 = Some (p', w')
         \<and> name p' = u ''Jane Smith'' \<and> found p'"
    by (rule exI[of _ p], rule exI[of _ w'], intro conjI p(1) p(2) fp)
  \<comment> \<open>John Smith: last name and first initial\<close>
  have e2: "clickFirstRegex demoBrowser asciiPlatform
         (buildExactRegex asciiPlatform (last_n ?john) (first_n ?john)) (Node 7) 3000 demoStart
       = Some (Inl Timeout, \<lparr>clock = 3500, ready = True, clicked = []\<rparr>)"
    using demo_exact_john by simp
  have t2: "clickFirstRegex demoBrowser asciiPlatform
         (buildLastPlusFirstInitialRegex asciiPlatform (last_n ?john) (first_n ?john)) (Node 7) 2000
         \<lparr>clock = 3500, ready = True, clicked = []\<rparr>
       = Some (Inr True, \<lparr>clock = 8500, ready = True, clicked = [Node 8]\<rparr>)"
    using demo_initial_john by simp
  have cjohn: "processPerson demoBrowser asciiPlatform
         \<lparr>name = u ''John Smith'', found = False, headshotImgString = JNull\<rparr> demoStart
       = Some (\<lparr>name = u ''John Smith'', found = False, headshotImgString = JNull\<rparr>,
               \<lparr>clock = 8500, ready = True, clicked = [Node 8]\<rparr>)"
    by (rule found_iff_exact_tier[OF h1 demo_parse(2) f(2) x e2,
          THEN conjunct2, THEN conjunct1, THEN mp, OF conjI[OF n t2], THEN conjunct1])
  \<comment> \<open>Bob Smith: last name only\<close>
  have e3: "clickFirstRegex demoBrowser asciiPlatform
         (buildExactRegex asciiPlatform (last_n ?bob) (first_n ?bob)) (Node 7) 3000 demoStart
       = Some (Inl Timeout, \<lparr>clock = 3500, ready = True, clicked = []\<rparr>)"
    using demo_bob(1) by simp
  have b2: "clickFirstRegex demoBrowser asciiPlatform
         (buildLastPlusFirstInitialRegex asciiPlatform (last_n ?bob) (first_n ?bob)) (Node 7) 2000
         \<lparr>clock = 3500, ready = True, clicked = []\<rparr>
       = Some (Inl Timeout, \<lparr>clock = 6000, ready = True, clicked = []\<rparr>)"
    using demo_bob(2) by simp
  have b3: "clickFirstRegex demoBrowser asciiPlatform
         (buildLastOnlyRegex asciiPlatform (last_n ?bob)) (Node 7) 2000
         \<lparr>clock = 6000, ready = True, clicked = []\<rparr>
       = Some (Inr True, \<lparr>clock = 11000, ready = True, clicked = [Node 8]\<rparr>)"
    using demo_bob(3) by simp
  have cbob: "processPerson demoBrowser asciiPlatform
         \<lparr>name = u ''Bob Smith'', found = False, headshotImgString = JNull\<rparr> demoStart
       = Some (\<lparr>name = u ''Bob Smith'', found = False, headshotImgString = JNull\<rparr>,
               \<lparr>clock = 11000, ready = True, clicked = [Node 8]\<rparr>)"
    by (rule found_iff_exact_tier[OF h1 demo_parse_more(1) f(3) x e3,
          THEN conjunct2, THEN conjunct2, THEN conjunct1, THEN mp,
          OF conjI[OF n conjI[OF b2 conjI[OF n b3]]], THEN conjunct1])
  \<comment> \<open>Ann Snow: first letter\<close>
  have e4: "clickFirstRegex demoBrowser asciiPlatform
         (buildExactRegex asciiPlatform (last_n ?ann) (first_n ?ann)) (Node 7) 3000 demoStart
       = Some (Inl Timeout, \<lparr>clock = 3500, ready = True, clicked = []\<rparr>)"
    using demo_ann(1) by simp
  have a2: "clickFirstRegex demoBrowser asciiPlatform
         (buildLastPlusFirstInitialRegex asciiPlatform (last_n ?ann) (first_n ?ann)) (Node 7) 2000
         \<lparr>clock = 3500, ready = True, clicked = []\<rparr>
       = Some (Inl Timeout, \<lparr>clock = 6000, ready = True, clicked = []\<rparr>)"
    using demo_ann(2) by simp
  have a3: "clickFirstRegex demoBrowser asciiPlatform
         (buildLastOnlyRegex asciiPlatform (last_n ?ann)) (Node 7) 2000
         \<lparr>clock = 6000, ready = True, clicked = []\<rparr>
       = Some (Inl Timeout, \<lparr>clock = 8500, ready = True, clicked = []\<rparr>)"
    using demo_ann(3) by simp
  have a4: "clickFirstRegex demoBrowser asciiPlatform
         (buildFirstLetterRegex asciiPlatform (last_n ?ann)) (Node 7) 2000
         \<lparr>clock = 8500, ready = True, clicked = []\<rparr>
       = Some (Inr True, \<lparr>clock = 13500, ready = True, clicked = [Node 8]\<rparr>)"
    using demo_ann(4) by simp
  have cann: "processPerson demoBrowser asciiPlatform
         \<lparr>name = u ''Ann Snow'', found = False, headshotImgString = JNull\<rparr> demoStart
       = Some (\<lparr>name = u ''Ann Snow'', found = False, headshotImgString = JNull\<rparr>,
               \<lparr>clock = 13500, ready = True, clicked = [Node 8]\<rparr>)"
    by (rule found_iff_exact_tier[OF h1 demo_parse_more(2) f(4) x e4,
          THEN conjunct2, THEN conjunct2, THEN conjunct2, THEN mp,
          OF conjI[OF n conjI[OF a2 conjI[OF n conjI[OF a3 conjI[OF n a4]]]]], THEN conjunct1])
  show ?thesis
    by (rule conjI[OF h1 conjI[OF demo_exact_jane conjI[OF cj conjI[OF demo_initial_john
          conjI[OF cjohn conjI[OF demo_bob(3) conjI[OF cbob conjI[OF demo_ann(4) cann]]]]]]]])
qed

text \<open>
  C5: when the name parses, the path expands and none of the four tiers returns a clicked
  match (each call of \<open>clickFirstRegex\<close> times out or fails), the entry of the query stays
  \<open>found = false\<close> with \<open>headshotImgString = null\<close>, and the loop goes on with the next
  query from the page as the last tier left it.
\<close>

theorem no_match_entry:
  assumes "parsePersonName P n = Inr pn"
    and "computeLetterAndRange P (last_n pn) = Inr f"
    and "expandPath B P (BASE_PATH @ [letterFolder f, rangeFolder f]) Document w
           = Some (Inr searchRoot, w1)"
    and "clickFirstRegex B P (buildExactRegex P (last_n pn) (first_n pn)) searchRoot 3000 w1
           = Some (r1, w2)" and "r1 \<noteq> Inr True"
    and "clickFirstRegex B P (buildLastPlusFirstInitialRegex P (last_n pn) (first_n pn))
           searchRoot 2000 w2 = Some (r2, w3)" and "r2 \<noteq> Inr True"
    and "clickFirstRegex B P (buildLastOnlyRegex P (last_n pn)) searchRoot 2000 w3
           = Some (r3, w4)" and "r3 \<noteq> Inr True"
    and "clickFirstRegex B P (buildFirstLetterRegex P (last_n pn)) searchRoot 2000 w4
           = Some (r4, w5)" and "r4 \<noteq> Inr True"
  shows "processPerson B P \<lparr>name = n, found = False, headshotImgString = JNull\<rparr> w
           = Some (\<lparr>name = n, found = False, headshotImgString = JNull\<rparr>, w5)
         \<and> processAll B P (\<lparr>name = n, found = False, headshotImgString = JNull\<rparr> # ps) w
           = (case processAll B P ps w5 of
                None \<Rightarrow> None
              | Some (rs, w') \<Rightarrow>
                  Some (\<lparr>name = n, found = False, headshotImgString = JNull\<rparr> # rs, w'))"
proof -
  let ?p = "\<lparr>name = n, found = False, headshotImgString = JNull\<rparr>"
  have fb: "fallbacks B P pn searchRoot w2 = Some w5"
    by (simp add: fallbacks_def fallbackTier_fails[OF assms(6,7)]
        fallbackTier_fails[OF assms(8,9)] fallbackTier_fails[OF assms(10,11)])
  have "tryBody B P ?p w = Some (Inr (), ?p, w5)"
    using assms(1-5) fb by (cases r1) (auto simp: tryBody_def split: bool.splits)
  then have pp: "processPerson B P ?p w = Some (?p, w5)" by (simp add: processPerson_def)
  then show ?thesis by (simp split: option.splits)
qed

theorem no_match_entry_witness:
  "parsePersonName asciiPlatform (u ''Sam Saab'')
       = Inr \<lparr>first_n = u ''sam'', last_n = u ''saab''\<rparr>
   \<and> processPerson demoBrowser asciiPlatform
         \<lparr>name = u ''Sam Saab'', found = False, headshotImgString = JNull\<rparr> demoStart
       = Some (\<lparr>name = u ''Sam Saab'', found = False, headshotImgString = JNull\<rparr>,
               \<lparr>clock = 11000, ready = True, clicked = []\<rparr>)
   \<and> processAll demoBrowser asciiPlatform
         [\<lparr>name = u ''Sam Saab'', found = False, headshotImgString = JNull\<rparr>] demoStart
       = Some ([\<lparr>name = u ''Sam Saab'', found = False, headshotImgString = JNull\<rparr>],
               \<lparr>clock = 11000, ready = True, clicked = []\<rparr>)"
proof -
  let ?pn = "\<lparr>first_n = u ''sam'', last_n = u ''saab''\<rparr>"
  let ?f = "\<lparr>letterFolder = u ''S'', rangeFolder = u ''Sa-Si''\<rparr>"
  have h1: "parsePersonName asciiPlatform (u ''Sam Saab'') = Inr ?pn" by (rule demo_parse(3))
  have h2: "computeLetterAndRange asciiPlatform (last_n ?pn) = Inr ?f"
    using demo_folders(2) by simp
  have h3: "expandPath demoBrowser asciiPlatform (BASE_PATH @ [letterFolder ?f, rangeFolder ?f])
      Document demoStart = Some (Inr (Node 6), demoStart)"
    using demo_expand(2)[of demoStart] by simp
  have c1: "clickFirstRegex demoBrowser asciiPlatform
      (buildExactRegex asciiPlatform (last_n ?pn) (first_n ?pn)) (Node 6) 3000 demoStart
      = Some (Inl Timeout, \<lparr>clock = 3500, ready = True, clicked = []\<rparr>)"
    unfolding demoStart_def by (rule demo_empty_folder(1))
  have c2: "clickFirstRegex demoBrowser asciiPlatform
      (buildLastPlusFirstInitialRegex asciiPlatform (last_n ?pn) (first_n ?pn)) (Node 6) 2000
      \<lparr>clock = 3500, ready = True, clicked = []\<rparr>
      = Some (Inl Timeout, \<lparr>clock = 6000, ready = True, clicked = []\<rparr>)"
    by (rule demo_empty_folder(2))
  have c3: "clickFirstRegex demoBrowser asciiPlatform
      (buildLastOnlyRegex asciiPlatform (last_n ?pn)) (Node 6) 2000
      \<lparr>clock = 6000, ready = True, clicked = []\<rparr>
      = Some (Inl Timeout, \<lparr>clock = 8500, ready = True, clicked = []\<rparr>)"
    by (rule demo_empty_folder(3))
  have c4: "clickFirstRegex demoBrowser asciiPlatform
      (buildFirstLetterRegex asciiPlatform (last_n ?pn)) (Node 6) 2000
      \<lparr>clock = 8500, ready = True, clicked = []\<rparr>
      = Some (Inl Timeout, \<lparr>clock = 11000, ready = True, clicked = []\<rparr>)"
    by (rule demo_empty_folder(4))
  have n: "(Inl Timeout :: error + bool) \<noteq> Inr True" by simp
  note t = no_match_entry[OF h1 h2 h3 c1 n c2 n c3 n c4 n, of "[]"]
  have r1: "processPerson demoBrowser asciiPlatform
         \<lparr>name = u ''Sam Saab'', found = False, headshotImgString = JNull\<rparr> demoStart
       = Some (\<lparr>name = u ''Sam Saab'', found = False, headshotImgString = JNull\<rparr>,
               \<lparr>clock = 11000, ready = True, clicked = []\<rparr>)"
    by (rule t[THEN conjunct1])
  have r2: "processAll demoBrowser asciiPlatform
         [\<lparr>name = u ''Sam Saab'', found = False, headshotImgString = JNull\<rparr>] demoStart
       = Some ([\<lparr>name = u ''Sam Saab'', found = False, headshotImgString = JNull\<rparr>],
               \<lparr>clock = 11000, ready = True, clicked = []\<rparr>)"
    using t[THEN conjunct2] by simp
  show ?thesis by (rule conjI[OF h1 conjI[OF r1 r2]])
qed

text \<open>
  C6: provided the clock moves on between two polls, the script settles for every list of
  names, and for a list that is not empty it returns one entry for each name, in order. An
  exception that leaves the \<open>try\<close> block of one query (a name that does not parse, a last
  name without a letter, a folder that does not show up in time) is caught in the loop body:
  the remaining queries are processed from the page as that query left it. What
  \<open>getHeadshotImageString\<close> may throw is caught earlier, inside the exact tier.
\<close>

theorem batch_completes:
  assumes "clockAdvances B"
  shows "(\<exists>r w'. peopleCardFinder B P providedNames w = Some (r, w')
            \<and> (providedNames \<noteq> [] \<longrightarrow> (\<exists>ps. r = Some ps \<and> map name ps = providedNames)))
         \<and> (tryBody B P p w0 = Some (Inl e, p1, w1)
            \<longrightarrow> (\<exists>rs w2. processAll B P qs w1 = Some (rs, w2)
                    \<and> processAll B P (p # qs) w0 = Some (p1 # rs, w2)))"
proof (intro conjI impI)
  show "\<exists>r w'. peopleCardFinder B P providedNames w = Some (r, w')
            \<and> (providedNames \<noteq> [] \<longrightarrow> (\<exists>ps. r = Some ps \<and> map name ps = providedNames))"
  proof (cases "providedNames = []")
    case True
    then show ?thesis by (simp add: peopleCardFinder_def)
  next
    case False
    obtain rs w' where r: "processAll B P (peopleCardData providedNames) w = Some (rs, w')"
      using processAll_total[OF assms] by blast
    from processAll_names[OF r] have "map name rs = providedNames"
      by (simp add: peopleCardData_def comp_def)
    with r False show ?thesis by (simp add: peopleCardFinder_def)
  qed
next
  assume t: "tryBody B P p w0 = Some (Inl e, p1, w1)"
  obtain rs w2 where r: "processAll B P qs w1 = Some (rs, w2)"
    using processAll_total[OF assms] by blast
  have "processPerson B P p w0 = Some (p1, w1)" using t by (simp add: processPerson_def)
  with r show "\<exists>rs w2. processAll B P qs w1 = Some (rs, w2)
      \<and> processAll B P (p # qs) w0 = Some (p1 # rs, w2)" by simp
qed

theorem batch_completes_witness:
  "clockAdvances demoBrowser
   \<and> tryBody demoBrowser asciiPlatform
         \<lparr>name = u ''Cher'', found = False, headshotImgString = JNull\<rparr> demoStart
       = Some (Inl (ParseError (u ''Cher'')),
               \<lparr>name = u ''Cher'', found = False, headshotImgString = JNull\<rparr>, demoStart)
   \<and> (\<exists>ps w'. peopleCardFinder demoBrowser asciiPlatform [u ''Cher'', u ''Jane Smith''] demoStart
                 = Some (Some ps, w')
          \<and> map name ps = [u ''Cher'', u ''Jane Smith''])
   \<and> (\<exists>rs w2. processAll demoBrowser asciiPlatform
                    [\<lparr>name = u ''Jane Smith'', found = False, headshotImgString = JNull\<rparr>] demoStart
                  = Some (rs, w2)
          \<and> processAll demoBrowser asciiPlatform
                [\<lparr>name = u ''Cher'', found = False, headshotImgString = JNull\<rparr>,
                 \<lparr>name = u ''Jane Smith'', found = False, headshotImgString = JNull\<rparr>] demoStart
              = Some (\<lparr>name = u ''Cher'', found = False, headshotImgString = JNull\<rparr> # rs, w2))"
proof -
  have h1: "clockAdvances demoBrowser" by (rule demo_clock)
  have h2: "tryBody demoBrowser asciiPlatform
         \<lparr>name = u ''Cher'', found = False, headshotImgString = JNull\<rparr> demoStart
       = Some (Inl (ParseError (u ''Cher'')),
               \<lparr>name = u ''Cher'', found = False, headshotImgString = JNull\<rparr>, demoStart)"
    by (simp add: tryBody_def parsePersonName_def sanitize_eval kebab_eval)
  note t = batch_completes[OF h1, of asciiPlatform "[u ''Cher'', u ''Jane Smith'']" demoStart
      "\<lparr>name = u ''Cher'', found = False, headshotImgString = JNull\<rparr>" demoStart
      "ParseError (u ''Cher'')" "\<lparr>name = u ''Cher'', found = False, headshotImgString = JNull\<rparr>"
      demoStart "[\<lparr>name = u ''Jane Smith'', found = False, headshotImgString = JNull\<rparr>]"]
  from t[THEN conjunct1] obtain r w' where
    r: "peopleCardFinder demoBrowser asciiPlatform [u ''Cher'', u ''Jane Smith''] demoStart
          = Some (r, w')"
    and i: "[u ''Cher'', u ''Jane Smith''] \<noteq> []
          \<longrightarrow> (\<exists>ps. r = Some ps \<and> map name ps = [u ''Cher'', u ''Jane Smith''])"
    by (elim exE conjE)
  have ne: "[u ''Cher'', u ''Jane Smith''] \<noteq> ([] :: ustring list)" by simp
  from i[THEN mp, OF ne] obtain ps where
    ps: "r = Some ps" "map name ps = [u ''Cher'', u ''Jane Smith'']" by (elim exE conjE)
  have c: "\<exists>ps w'. peopleCardFinder demoBrowser asciiPlatform [u ''Cher'', u ''Jane Smith''] demoStart
                 = Some (Some ps, w')
          \<and> map name ps = [u ''Cher'', u ''Jane Smith'']"
    by (rule exI[of _ ps], rule exI[of _ w']) (simp only: r ps simp_thms)
  show ?thesis
    by (rule conjI[OF h1 conjI[OF h2 conjI[OF c t[THEN conjunct2, THEN mp, OF h2]]]])
qed




text \<open>
  C10: a name whose sanitized form has fewer than two parts when split at the spaces makes
  \<open>parsePersonName\<close> throw. The \<open>try\<close> block ends there, for every page and with the page
  untouched; the entry keeps \<open>found = false\<close> and \<open>headshotImgString = null\<close>, and the loop
  goes on with the next query.
\<close>

theorem short_name_skipped:
  assumes "length (splitOn 32 (sanitizeName P n)) < 2"
  shows "parsePersonName P n = Inl (ParseError n)
       \<and> tryBody B P \<lparr>name = n, found = False, headshotImgString = JNull\<rparr> w
           = Some (Inl (ParseError n), \<lparr>name = n, found = False, headshotImgString = JNull\<rparr>, w)
       \<and> processPerson B P \<lparr>name = n, found = False, headshotImgString = JNull\<rparr> w
           = Some (\<lparr>name = n, found = False, headshotImgString = JNull\<rparr>, w)
       \<and> processAll B P (\<lparr>name = n, found = False, headshotImgString = JNull\<rparr> # ps) w
           = (case processAll B P ps w of
                None \<Rightarrow> None
              | Some (rs, w') \<Rightarrow>
                  Some (\<lparr>name = n, found = False, headshotImgString = JNull\<rparr> # rs, w'))"
proof -
  let ?p = "\<lparr>name = n, found = False, headshotImgString = JNull\<rparr>"
  have 1: "parsePersonName P n = Inl (ParseError n)"
    using assms by (simp add: parsePersonName_def Let_def)
  then have 2: "tryBody B P ?p w = Some (Inl (ParseError n), ?p, w)" by (simp add: tryBody_def)
  then have 3: "processPerson B P ?p w = Some (?p, w)" by (simp add: processPerson_def)
  then have 4: "processAll B P (?p # ps) w
           = (case processAll B P ps w of
                None \<Rightarrow> None
              | Some (rs, w') \<Rightarrow> Some (?p # rs, w'))"
    by (simp split: option.splits)
  from 1 2 3 4 show ?thesis by (intro conjI)
qed

theorem short_name_skipped_witness:
  "length (splitOn 32 (sanitizeName asciiPlatform (u ''Cher''))) < 2
   \<and> (parsePersonName asciiPlatform (u ''Cher'') = Inl (ParseError (u ''Cher''))
       \<and> tryBody demoBrowser asciiPlatform
            \<lparr>name = u ''Cher'', found = False, headshotImgString = JNull\<rparr> demoStart
           = Some (Inl (ParseError (u ''Cher'')),
                   \<lparr>name = u ''Cher'', found = False, headshotImgString = JNull\<rparr>, demoStart)
       \<and> processPerson demoBrowser asciiPlatform
            \<lparr>name = u ''Cher'', found = False, headshotImgString = JNull\<rparr> demoStart
           = Some (\<lparr>name = u ''Cher'', found = False, headshotImgString = JNull\<rparr>, demoStart)
       \<and> processAll demoBrowser asciiPlatform
            (\<lparr>name = u ''Cher'', found = False, headshotImgString = JNull\<rparr> # []) demoStart
           = (case processAll demoBrowser asciiPlatform [] demoStart of
                None \<Rightarrow> None
              | Some (rs, w') \<Rightarrow>
                  Some (\<lparr>name = u ''Cher'', found = False, headshotImgString = JNull\<rparr> # rs, w')))"
proof -
  have h: "length (splitOn 32 (sanitizeName asciiPlatform (u ''Cher''))) < 2"
    by (simp add: sanitize_eval kebab_eval)
  show ?thesis
    by (rule conjI[OF h short_name_skipped[OF h, of demoBrowser demoStart "[]"]])
qed

end
